theory Spec2Isabelle
  imports Complex_Main "HOL-Library.Word"
begin

section \<open>The LSM tree of \<^verbatim>\<open>lsm_tree.cpp\<close>\<close>

text \<open>
  A shallow embedding of \<^verbatim>\<open>src/lsm_tree.cpp\<close>: the constructor, \<^verbatim>\<open>merge_down\<close>,
  \<^verbatim>\<open>put\<close>, \<^verbatim>\<open>get_run\<close>, \<^verbatim>\<open>get\<close>, \<^verbatim>\<open>range\<close>, \<^verbatim>\<open>del\<close> and \<^verbatim>\<open>load\<close>.
  The classes the file only uses (\<^verbatim>\<open>entry_t\<close>, \<^verbatim>\<open>Run\<close>, \<^verbatim>\<open>Level\<close>, \<^verbatim>\<open>Buffer\<close>,
  \<^verbatim>\<open>MergeContext\<close>) are declared in headers that are not part of the sources; they
  are modelled from the specification's description of their interfaces, and each such
  definition says so.

  Conventions of the embedding.
  \<^item> Mutation is state passing: every operation takes the tree and returns the new one.
  \<^item> \<^verbatim>\<open>die(...)\<close> and a failed \<^verbatim>\<open>assert\<close> end the process; they are the \<open>Inl\<close> values
    of a result type \<open>error + 'a\<close>, and every caller passes them on unchanged.
    Assertions are compiled in.
  \<^item> Output written to \<^verbatim>\<open>cout\<close> is the string an operation returns.
  \<^item> Keys and values are mathematical integers; the fixed width of \<^verbatim>\<open>KEY_t\<close> and
    \<^verbatim>\<open>VAL_t\<close> only matters where \<^verbatim>\<open>load\<close> decodes a file.
\<close>

subsection \<open>Entries\<close>

text \<open>
  Modelled from the spec: the types \<^verbatim>\<open>KEY_t\<close>, \<^verbatim>\<open>VAL_t\<close> and \<^verbatim>\<open>entry_t\<close> are declared
  in a header that is not in the sources. Keys and values are integers, and an entry is
  the pair of its \<^verbatim>\<open>key\<close> and its \<^verbatim>\<open>val\<close> (spec 3).
\<close>

type_synonym KEY_t = int
type_synonym VAL_t = int
type_synonym entry_t = "KEY_t \<times> VAL_t"

definition key :: "entry_t \<Rightarrow> KEY_t" where
  "key e = fst e"

definition val :: "entry_t \<Rightarrow> VAL_t" where
  "val e = snd e"

text \<open>
  Modelled from the spec: the macro \<^verbatim>\<open>VAL_TOMBSTONE\<close> is not defined in the sources. The
  spec reserves one sentinel of the value type; the least 32-bit value stands for it.
\<close>

definition VAL_TOMBSTONE :: VAL_t where
  "VAL_TOMBSTONE = - 2147483648"

datatype error =
    TreeFull                \<comment> \<open>\<^verbatim>\<open>die("No more space in tree.")\<close>\<close>
  | FileNotFound            \<comment> \<open>\<^verbatim>\<open>die("Could not locate file ...")\<close>\<close>
  | CorruptInput            \<comment> \<open>named by the spec; no statement of the source raises it\<close>
  | AssertRemaining         \<comment> \<open>\<^verbatim>\<open>assert(next->remaining() > 0)\<close> failed\<close>
  | AssertBufferPut         \<comment> \<open>\<^verbatim>\<open>assert(buffer.put(key, val))\<close> failed\<close>
  | NoLevel                 \<comment> \<open>an access the C++ leaves undefined: \<^verbatim>\<open>levels.front()\<close> of no levels\<close>

subsection \<open>Run, Level and Buffer\<close>

text \<open>
  Modelled from the spec: class \<^verbatim>\<open>Run\<close> (spec 3 and 4.2), whose header and code are not
  in the sources. A run is the capacity it was constructed with and the entries appended
  to it, in order. Mapping and unmapping (\<^verbatim>\<open>map_read\<close>, \<^verbatim>\<open>map_write\<close>,
  \<^verbatim>\<open>unmap_read\<close>, \<^verbatim>\<open>unmap_write\<close>) do not change the entries and have no counterpart.
\<close>

record Run =
  run_max_size :: int
  run_entries :: "entry_t list"

text \<open>Modelled from the spec: the constructor \<^verbatim>\<open>Run(max_size)\<close> makes an empty run.\<close>

definition Run_new :: "int \<Rightarrow> Run" where
  "Run_new max_size = \<lparr>run_max_size = max_size, run_entries = []\<rparr>"

text \<open>Modelled from the spec: \<^verbatim>\<open>Run::put(entry)\<close> appends the entry (spec 4.2).\<close>

definition run_put :: "Run \<Rightarrow> entry_t \<Rightarrow> Run" where
  "run_put r e = r\<lparr>run_entries := run_entries r @ [e]\<rparr>"

text \<open>
  Modelled from the spec: \<^verbatim>\<open>Run::get(key)\<close> returns the stored value of the key, the
  tombstone included, or nothing (spec 4.2).
\<close>

definition run_get :: "Run \<Rightarrow> KEY_t \<Rightarrow> VAL_t option" where
  "run_get r k = map_of (run_entries r) k"

text \<open>
  Modelled from the spec: \<^verbatim>\<open>Run::range(start, end)\<close> returns the entries with
  \<open>start \<le> key \<le> end\<close> in stored order (spec 4.2).
\<close>

definition run_range :: "Run \<Rightarrow> KEY_t \<Rightarrow> KEY_t \<Rightarrow> entry_t list" where
  "run_range r start end_incl = filter (\<lambda>e. start \<le> key e \<and> key e \<le> end_incl) (run_entries r)"

text \<open>
  Modelled from the spec: class \<^verbatim>\<open>Level\<close> (spec 3 and 4.5), whose header is not in the
  sources. The runs are ordered from the oldest to the newest, the newest at the back.
\<close>

record Level =
  max_runs :: int
  max_run_size :: int
  runs :: "Run list"

text \<open>Modelled from the spec: the constructor \<^verbatim>\<open>Level(n, s)\<close> makes a level without runs.\<close>

definition Level_new :: "int \<Rightarrow> int \<Rightarrow> Level" where
  "Level_new n s = \<lparr>max_runs = n, max_run_size = s, runs = []\<rparr>"

text \<open>Modelled from the spec: \<^verbatim>\<open>remaining() = max_runs - runs.size()\<close> (spec 4.5).\<close>

definition remaining :: "Level \<Rightarrow> int" where
  "remaining l = max_runs l - int (length (runs l))"

text \<open>
  Modelled from the spec: class \<^verbatim>\<open>Buffer\<close> (spec 3 and 4.3), whose header and code are
  not in the sources. The entries are kept sorted by key with one entry per key.
\<close>

record Buffer =
  max_size :: int
  entries :: "entry_t list"

text \<open>Modelled from the spec: the constructor \<^verbatim>\<open>Buffer(max_size)\<close> makes an empty buffer.\<close>

definition Buffer_new :: "int \<Rightarrow> Buffer" where
  "Buffer_new n = \<lparr>max_size = n, entries = []\<rparr>"

text \<open>
  Modelled from the spec: an entry goes to its place in the order of the keys and replaces
  the entry of its key, if there is one (spec 4.3: keys are unique within the buffer).
\<close>

fun buffer_insert :: "entry_t \<Rightarrow> entry_t list \<Rightarrow> entry_t list" where
  "buffer_insert e [] = [e]"
| "buffer_insert e (x # xs) =
     (if key e < key x then e # x # xs
      else if key e = key x then e # xs
      else x # buffer_insert e xs)"

text \<open>
  Modelled from the spec: \<^verbatim>\<open>Buffer::get(key)\<close> returns the current value of the key, the
  tombstone included, or nothing (spec 4.3).
\<close>

definition buffer_get :: "Buffer \<Rightarrow> KEY_t \<Rightarrow> VAL_t option" where
  "buffer_get b k = map_of (entries b) k"

text \<open>
  Modelled from the spec: \<^verbatim>\<open>Buffer::put(key, val)\<close> updates a key that is present
  whatever the fill, inserts a new key while there is room, and otherwise returns false
  and leaves the buffer as it was (spec 4.3).
\<close>

definition buffer_put :: "Buffer \<Rightarrow> KEY_t \<Rightarrow> VAL_t \<Rightarrow> bool \<times> Buffer" where
  "buffer_put b k v =
     (if buffer_get b k \<noteq> None then (True, b\<lparr>entries := buffer_insert (k, v) (entries b)\<rparr>)
      else if max_size b \<le> int (length (entries b)) then (False, b)
      else (True, b\<lparr>entries := buffer_insert (k, v) (entries b)\<rparr>))"

text \<open>
  Modelled from the spec: \<^verbatim>\<open>Buffer::range(start, end)\<close> returns the entries with
  \<open>start \<le> key \<le> end\<close> in sorted order (spec 4.3).
\<close>

definition buffer_range :: "Buffer \<Rightarrow> KEY_t \<Rightarrow> KEY_t \<Rightarrow> entry_t list" where
  "buffer_range b start end_incl = filter (\<lambda>e. start \<le> key e \<and> key e \<le> end_incl) (entries b)"

text \<open>Modelled from the spec: \<^verbatim>\<open>Buffer::empty()\<close> discards all entries (spec 4.3).\<close>

definition buffer_empty :: "Buffer \<Rightarrow> Buffer" where
  "buffer_empty b = b\<lparr>entries := []\<rparr>"

subsection \<open>Merge context\<close>

text \<open>
  Modelled from the spec: class \<^verbatim>\<open>MergeContext\<close> (spec 4.4), whose header and code are
  not in the sources. The context is the list of its input streams in the order they were
  added, each stream being what is left of it.
\<close>

type_synonym MergeContext = "entry_t list list"

text \<open>Modelled from the spec: \<^verbatim>\<open>add(data, size)\<close> registers one more input stream.\<close>

definition merge_add :: "MergeContext \<Rightarrow> entry_t list \<Rightarrow> MergeContext" where
  "merge_add ctx data = ctx @ [data]"

text \<open>Modelled from the spec: \<^verbatim>\<open>done()\<close> holds when every stream is exhausted.\<close>

definition merge_done :: "MergeContext \<Rightarrow> bool" where
  "merge_done ctx = (concat ctx = [])"

text \<open>
  Modelled from the spec: \<^verbatim>\<open>next()\<close> returns the entry with the least key among the
  heads of the streams; on equal keys the stream added first wins, and every stream whose
  head has that key is advanced past it in the same call (spec 4.4). \<open>min_key\<close> is the
  least key among the heads, \<open>first_with\<close> the head of the first stream that has it,
  \<open>advance\<close> the step of one stream. The result is \<open>None\<close> exactly when \<^verbatim>\<open>done()\<close>
  holds, where the spec forbids the call.
\<close>

fun min_key :: "MergeContext \<Rightarrow> KEY_t option" where
  "min_key [] = None"
| "min_key ([] # ss) = min_key ss"
| "min_key ((e # es) # ss) =
     (case min_key ss of None \<Rightarrow> Some (key e) | Some k \<Rightarrow> Some (min (key e) k))"

fun first_with :: "KEY_t \<Rightarrow> MergeContext \<Rightarrow> entry_t option" where
  "first_with k [] = None"
| "first_with k ([] # ss) = first_with k ss"
| "first_with k ((e # es) # ss) = (if key e = k then Some e else first_with k ss)"

fun advance :: "KEY_t \<Rightarrow> entry_t list \<Rightarrow> entry_t list" where
  "advance k [] = []"
| "advance k (e # es) = (if key e = k then es else e # es)"

definition merge_next :: "MergeContext \<Rightarrow> (entry_t \<times> MergeContext) option" where
  "merge_next ctx =
     (case min_key ctx of
        None \<Rightarrow> None
      | Some k \<Rightarrow>
          (case first_with k ctx of
             None \<Rightarrow> None
           | Some e \<Rightarrow> Some (e, map (advance k) ctx)))"

lemma min_key_None: "min_key ctx = None \<longleftrightarrow> concat ctx = []"
  by (induction ctx rule: min_key.induct) (auto split: option.splits)

lemma first_with_min_key: "min_key ctx = Some k \<Longrightarrow> \<exists>e. first_with k ctx = Some e \<and> key e = k"
proof (induction ctx arbitrary: k rule: min_key.induct)
  case 1
  then show ?case by simp
next
  case (2 ss)
  then show ?case by simp
next
  case (3 e es ss)
  show ?case
  proof (cases "min_key ss")
    case None
    with 3 show ?thesis by simp
  next
    case (Some k')
    with 3 have k: "k = min (key e) k'" by simp
    show ?thesis
    proof (cases "key e = k")
      case True
      then show ?thesis by simp
    next
      case False
      with k have "k = k'" by (simp add: min_def split: if_splits)
      with 3 Some False show ?thesis by simp
    qed
  qed
qed

lemma advance_length: "length (advance k s) \<le> length s"
  by (cases s) auto

lemma advance_concat_le: "length (concat (map (advance k) ctx)) \<le> length (concat ctx)"
proof (induction ctx)
  case Nil
  then show ?case by simp
next
  case (Cons s ctx)
  have "length (advance k s) \<le> length s" by (rule advance_length)
  with Cons show ?case by simp
qed

lemma advance_concat_less:
  "first_with k ctx = Some e \<Longrightarrow> key e = k \<Longrightarrow>
   length (concat (map (advance k) ctx)) < length (concat ctx)"
proof (induction ctx rule: first_with.induct)
  case (1 k)
  then show ?case by simp
next
  case (2 k ss)
  then show ?case by simp
next
  case (3 k e' es ss)
  show ?case
  proof (cases "key e' = k")
    case True
    have "length (concat (map (advance k) ss)) \<le> length (concat ss)"
      by (rule advance_concat_le)
    with True show ?thesis by simp
  next
    case False
    with 3 show ?thesis by simp
  qed
qed

lemma merge_next_decreases:
  "merge_next ctx = Some (e, ctx') \<Longrightarrow> length (concat ctx') < length (concat ctx)"
proof -
  assume a: "merge_next ctx = Some (e, ctx')"
  then obtain k where k: "min_key ctx = Some k"
    by (auto simp: merge_next_def split: option.splits)
  from first_with_min_key [OF k] obtain e' where e': "first_with k ctx = Some e'" "key e' = k"
    by blast
  from a k e' have "ctx' = map (advance k) ctx" by (simp add: merge_next_def)
  with advance_concat_less [OF e'] show ?thesis by simp
qed

lemma merge_next_Some: "\<not> merge_done ctx \<Longrightarrow> \<exists>e ctx'. merge_next ctx = Some (e, ctx')"
proof -
  assume "\<not> merge_done ctx"
  then have "min_key ctx \<noteq> None" by (simp add: merge_done_def min_key_None)
  then obtain k where k: "min_key ctx = Some k" by auto
  from first_with_min_key [OF k] obtain e where "first_with k ctx = Some e" by blast
  with k show ?thesis by (simp add: merge_next_def)
qed

subsection \<open>The tree and its constructor\<close>

text \<open>
  Lines 28-39. \<^verbatim>\<open>merge_ratio\<close> is a \<^verbatim>\<open>float\<close>. It is a rational number here, and
  \<^verbatim>\<open>merge_ratio * max_runs\<close> is computed exactly; the conversion to \<^verbatim>\<open>int\<close> truncates
  toward zero. The worker pool is only its number of threads: the searches below are the
  schedule of one worker. The loop of the constructor is \<open>make_levels\<close>.
\<close>

record LSMTree =
  buffer :: Buffer
  levels :: "Level list"
  num_threads :: int
  merge_ratio :: rat

function make_levels :: "int \<Rightarrow> int \<Rightarrow> int \<Rightarrow> Level list" where
  "make_levels depth fanout max_run_size' =
     (if depth > 0
      then Level_new fanout max_run_size' # make_levels (depth - 1) fanout (max_run_size' * fanout)
      else [])"
  by pat_completeness auto
termination
  by (relation "measure (\<lambda>(depth, fanout, m). nat depth)") auto

definition LSMTree_new :: "int \<Rightarrow> int \<Rightarrow> int \<Rightarrow> int \<Rightarrow> rat \<Rightarrow> LSMTree" where
  "LSMTree_new buffer_max_entries depth fanout threads ratio =
     \<lparr>buffer = Buffer_new buffer_max_entries,
      levels = make_levels depth fanout buffer_max_entries,
      num_threads = threads,
      merge_ratio = ratio\<rparr>"

subsection \<open>merge_down\<close>

definition trunc_int :: "rat \<Rightarrow> int" where
  "trunc_int x = (if 0 \<le> x then \<lfloor>x\<rfloor> else \<lceil>x\<rceil>)"

text \<open>
  Lines 72-73. \<^verbatim>\<open>merge_size\<close> is an \<^verbatim>\<open>int\<close> and \<^verbatim>\<open>runs.size()\<close> is unsigned, so
  the comparison converts a negative \<^verbatim>\<open>merge_size\<close> to a huge unsigned number: it is
  then greater than the size and replaced by it.
\<close>

definition merge_size :: "rat \<Rightarrow> Level \<Rightarrow> nat" where
  "merge_size ratio current =
     (let m = trunc_int (ratio * of_int (max_runs current));
          n = length (runs current)
      in if m < 0 \<or> int n < m then n else nat m)"

text \<open>
  Lines 86-93: the loop that drains the merge context into the run at the back of the
  next level. \<open>deepest\<close> is the test \<^verbatim>\<open>next == levels.end() - 1\<close>.
\<close>

function merge_drain :: "bool \<Rightarrow> MergeContext \<Rightarrow> Run \<Rightarrow> Run" where
  "merge_drain deepest ctx out =
     (if merge_done ctx then out
      else (case merge_next ctx of
              None \<Rightarrow> out
            | Some (entry, ctx') \<Rightarrow>
                merge_drain deepest ctx'
                  (if \<not> (deepest \<and> val entry = VAL_TOMBSTONE) then run_put out entry else out)))"
  by pat_completeness auto
termination
  by (relation "measure (\<lambda>(deepest, ctx, out). length (concat ctx))")
     (auto dest: merge_next_decreases)

text \<open>
  Lines 72-105: what \<^verbatim>\<open>merge_down\<close> does once the next level has room. The first
  \<^verbatim>\<open>merge_size\<close> runs of the current level are added to the merge context in index
  order, \<^verbatim>\<open>runs[0]\<close> first; a new run is put at the back of the next level and filled;
  the merged runs are erased from the current level.
\<close>

definition merge_runs :: "rat \<Rightarrow> Level \<Rightarrow> Level \<Rightarrow> Level list \<Rightarrow> Level list" where
  "merge_runs ratio current next deeper =
     (let n = merge_size ratio current;
          merge_ctx = foldl merge_add [] (map run_entries (take n (runs current)));
          out = merge_drain (deeper = []) merge_ctx (Run_new (max_run_size next))
      in current\<lparr>runs := drop n (runs current)\<rparr> # next\<lparr>runs := runs next @ [out]\<rparr> # deeper)"

text \<open>
  The iterator \<^verbatim>\<open>current\<close> is the suffix of \<^verbatim>\<open>levels\<close> that starts at it: the levels
  before it are never touched. \<^verbatim>\<open>current >= levels.end() - 1\<close> says that the suffix has
  one level. The function returns the suffix as the call leaves it. The assertion of
  line 47, \<^verbatim>\<open>current >= levels.begin()\<close>, holds of every suffix. The first equation is
  never used: \<^verbatim>\<open>merge_down\<close> is only called on \<^verbatim>\<open>levels.begin()\<close> of a tree with levels
  and on \<^verbatim>\<open>current + 1\<close> where that is a level. Nor are the branches for an empty
  result: a call returns as many levels as it was given.
\<close>

fun merge_down :: "rat \<Rightarrow> Level list \<Rightarrow> error + Level list" where
  "merge_down ratio [] = Inl NoLevel"
| "merge_down ratio [current] = (if runs current = [] then Inr [current] else Inl TreeFull)"
| "merge_down ratio (current # next # deeper) =
     (if runs current = [] then Inr (current # next # deeper)
      else
        (case (if remaining next = 0
               then (case merge_down ratio (next # deeper) of
                       Inl e \<Rightarrow> Inl e
                     | Inr [] \<Rightarrow> Inl NoLevel
                     | Inr (next' # deeper') \<Rightarrow>
                         if remaining next' > 0 then Inr (next' # deeper') else Inl AssertRemaining)
               else Inr (next # deeper)) of
           Inl e \<Rightarrow> Inl e
         | Inr [] \<Rightarrow> Inl NoLevel
         | Inr (next' # deeper') \<Rightarrow> Inr (merge_runs ratio current next' deeper')))"

subsection \<open>put and del\<close>

text \<open>
  Lines 108-144. When the buffer refuses the entry, \<^verbatim>\<open>put\<close> merges the first level down
  if it has no room, appends the buffer as a new run of the first level, empties the
  buffer and puts the entry again.
\<close>

definition put :: "LSMTree \<Rightarrow> KEY_t \<Rightarrow> VAL_t \<Rightarrow> error + LSMTree" where
  "put t k v =
     (case buffer_put (buffer t) k v of
        (True, b) \<Rightarrow> Inr (t\<lparr>buffer := b\<rparr>)
      | (False, _) \<Rightarrow>
          (case levels t of
             [] \<Rightarrow> Inl NoLevel
           | front # _ \<Rightarrow>
               (case (if remaining front = 0 then merge_down (merge_ratio t) (levels t)
                      else Inr (levels t)) of
                  Inl e \<Rightarrow> Inl e
                | Inr [] \<Rightarrow> Inl NoLevel
                | Inr (front' # rest) \<Rightarrow>
                    (let new_run = foldl run_put (Run_new (max_run_size front')) (entries (buffer t));
                         ls = front'\<lparr>runs := runs front' @ [new_run]\<rparr> # rest
                     in (case buffer_put (buffer_empty (buffer t)) k v of
                           (True, b) \<Rightarrow> Inr (t\<lparr>buffer := b, levels := ls\<rparr>)
                         | (False, _) \<Rightarrow> Inl AssertBufferPut)))))"

text \<open>Lines 298-300.\<close>

definition del :: "LSMTree \<Rightarrow> KEY_t \<Rightarrow> error + LSMTree" where
  "del t k = put t k VAL_TOMBSTONE"

subsection \<open>get\<close>

text \<open>
  Lines 146-157. Index 0 is the newest run of the first level; the runs of a level are
  counted from its back. The index is never negative, so it is a natural number.
\<close>

fun get_run :: "Level list \<Rightarrow> nat \<Rightarrow> Run option" where
  "get_run [] index = None"
| "get_run (level # ls) index =
     (if index < length (runs level)
      then Some (runs level ! (length (runs level) - index - 1))
      else get_run ls (index - length (runs level)))"

definition total_runs :: "Level list \<Rightarrow> nat" where
  "total_runs ls = length (concat (map runs ls))"

lemma get_run_Some_less: "get_run ls index = Some r \<Longrightarrow> index < total_runs ls"
  by (induction ls index rule: get_run.induct) (auto simp: total_runs_def split: if_splits)

text \<open>
  Lines 186-215, the \<^verbatim>\<open>worker_task search\<close>, as one worker runs it: it takes the next index
  from \<^verbatim>\<open>counter\<close>, stops when there is no such run, calls itself after a miss, and
  records the index and the value at a hit. The result is \<open>None\<close> while
  \<^verbatim>\<open>latest_run\<close> is still \<open>-1\<close>. With more workers the pair recorded is the
  same: a worker gives up an index only after a hit at a smaller one was recorded, and
  the hit with the least index replaces any other.
\<close>

function search :: "Level list \<Rightarrow> KEY_t \<Rightarrow> nat \<Rightarrow> (nat \<times> VAL_t) option" where
  "search ls k counter =
     (case get_run ls counter of
        None \<Rightarrow> None
      | Some run \<Rightarrow>
          (case run_get run k of
             None \<Rightarrow> search ls k (Suc counter)
           | Some current_val \<Rightarrow> Some (counter, current_val)))"
  by pat_completeness auto
termination
  by (relation "measure (\<lambda>(ls, k, counter). total_runs ls - counter)")
     (auto dest: get_run_Some_less)

text \<open>\<^verbatim>\<open>cout << n\<close> prints an integer in decimal; \<^verbatim>\<open>endl\<close> is a newline.\<close>

definition digit :: "nat \<Rightarrow> char" where
  "digit n = ''0123456789'' ! n"

function show_nat :: "nat \<Rightarrow> string" where
  "show_nat n = (if n < 10 then [digit n] else show_nat (n div 10) @ [digit (n mod 10)])"
  by pat_completeness auto
termination
  by (relation "measure id") auto

definition show_int :: "int \<Rightarrow> string" where
  "show_int i = (if i < 0 then CHR ''-'' # show_nat (nat (- i)) else show_nat (nat i))"

definition endl :: string where
  "endl = [CHR 0x0A]"

text \<open>
  Lines 159-222: the buffer first, then the runs; a tombstone prints as nothing. The
  result is what \<^verbatim>\<open>get\<close> prints.
\<close>

definition get :: "LSMTree \<Rightarrow> KEY_t \<Rightarrow> string" where
  "get t k =
     (case buffer_get (buffer t) k of
        Some buffer_val \<Rightarrow> (if buffer_val \<noteq> VAL_TOMBSTONE then show_int buffer_val else []) @ endl
      | None \<Rightarrow>
          (case search (levels t) k 0 of
             None \<Rightarrow> endl
           | Some (latest_run, latest_val) \<Rightarrow>
               (if latest_val \<noteq> VAL_TOMBSTONE then show_int latest_val else []) @ endl))"

subsection \<open>range\<close>

text \<open>
  Lines 252-266: the \<^verbatim>\<open>worker_task\<close> that fills the map \<^verbatim>\<open>ranges\<close>. The map is the list of its
  pairs in ascending order of the keys, which is the order the loop of line 275 reads it
  in: the buffer under 0, then the run with index \<open>i\<close> under \<open>i + 1\<close>.
\<close>

function collect_ranges :: "Level list \<Rightarrow> KEY_t \<Rightarrow> KEY_t \<Rightarrow> nat \<Rightarrow> (nat \<times> entry_t list) list" where
  "collect_ranges ls start end_incl counter =
     (case get_run ls counter of
        None \<Rightarrow> []
      | Some run \<Rightarrow>
          (counter + 1, run_range run start end_incl) # collect_ranges ls start end_incl (Suc counter))"
  by pat_completeness auto
termination
  by (relation "measure (\<lambda>(ls, start, end_incl, counter). total_runs ls - counter)")
     (auto dest: get_run_Some_less)

text \<open>Lines 279-285: the loop that prints the merged entries.\<close>

function range_emit :: "MergeContext \<Rightarrow> string" where
  "range_emit ctx =
     (if merge_done ctx then []
      else (case merge_next ctx of
              None \<Rightarrow> []
            | Some (entry, ctx') \<Rightarrow>
                (if val entry \<noteq> VAL_TOMBSTONE
                 then show_int (key entry) @ '':'' @ show_int (val entry)
                      @ (if \<not> merge_done ctx' then '' '' else [])
                 else [])
                @ range_emit ctx'))"
  by pat_completeness auto
termination
  by (relation "measure (\<lambda>ctx. length (concat ctx))") (auto dest: merge_next_decreases)

text \<open>
  Lines 224-296. The result is what \<^verbatim>\<open>range\<close> prints. The sub-ranges are added to the
  merge context in ascending order of their keys in \<^verbatim>\<open>ranges\<close>: the buffer first, then
  the runs from the newest to the oldest.
\<close>

definition range_lsm :: "LSMTree \<Rightarrow> KEY_t \<Rightarrow> KEY_t \<Rightarrow> string" where
  "range_lsm t start end' =
     (if end' \<le> start then endl
      else
        (let end_incl = end' - 1;
             ranges = (0, buffer_range (buffer t) start end_incl)
                      # collect_ranges (levels t) start end_incl 0;
             merge_ctx = foldl merge_add [] (map snd ranges)
         in range_emit merge_ctx @ endl))"

subsection \<open>load\<close>

text \<open>
  Modelled from the spec: the widths of \<^verbatim>\<open>KEY_t\<close> and \<^verbatim>\<open>VAL_t\<close> are not in the
  sources; both are four bytes, read as a little-endian two's-complement number. A file
  is its bytes, or \<open>None\<close> when it cannot be opened.
\<close>

type_synonym byte = "8 word"

definition sizeof_KEY_t :: nat where
  "sizeof_KEY_t = 4"

definition sizeof_VAL_t :: nat where
  "sizeof_VAL_t = 4"

definition decode_int :: "byte list \<Rightarrow> int" where
  "decode_int bs = sint (word_of_nat (foldr (\<lambda>b acc. unat b + 256 * acc) bs 0) :: 32 word)"

text \<open>
  \<^verbatim>\<open>stream.read(p, n)\<close>: with fewer than \<open>n\<close> bytes left the stream fails, and a failed
  stream reads nothing more. Lines 18-22, \<^verbatim>\<open>operator>>\<close>, read the key and then the
  value; the result is \<open>None\<close> when the stream has failed.
\<close>

definition stream_read :: "nat \<Rightarrow> byte list \<Rightarrow> (byte list \<times> byte list) option" where
  "stream_read n s = (if n \<le> length s then Some (take n s, drop n s) else None)"

definition read_entry :: "byte list \<Rightarrow> (entry_t \<times> byte list) option" where
  "read_entry s =
     (case stream_read sizeof_KEY_t s of
        None \<Rightarrow> None
      | Some (kb, s1) \<Rightarrow>
          (case stream_read sizeof_VAL_t s1 of
             None \<Rightarrow> None
           | Some (vb, s2) \<Rightarrow> Some ((decode_int kb, decode_int vb), s2)))"

lemma read_entry_decreases: "read_entry s = Some (e, s') \<Longrightarrow> length s' < length s"
  by (auto simp: read_entry_def stream_read_def sizeof_KEY_t_def sizeof_VAL_t_def
      split: option.splits if_splits)

text \<open>Lines 309-311: \<^verbatim>\<open>while (stream >> entry) put(entry.key, entry.val)\<close>.\<close>

function load_loop :: "LSMTree \<Rightarrow> byte list \<Rightarrow> error + LSMTree" where
  "load_loop t s =
     (case read_entry s of
        None \<Rightarrow> Inr t
      | Some (entry, s') \<Rightarrow>
          (case put t (key entry) (val entry) of
             Inl e \<Rightarrow> Inl e
           | Inr t' \<Rightarrow> load_loop t' s'))"
  by pat_completeness auto
termination
  by (relation "measure (\<lambda>(t, s). length s)") (auto dest: read_entry_decreases)

text \<open>Lines 302-315.\<close>

definition load :: "LSMTree \<Rightarrow> byte list option \<Rightarrow> error + LSMTree" where
  "load t file =
     (case file of
        Some s \<Rightarrow> load_loop t s
      | None \<Rightarrow> Inl FileNotFound)"

subsection \<open>Histories of public operations\<close>

text \<open>
  The five public operations as commands, and a tree after a list of them. \<^verbatim>\<open>get\<close> and
  \<^verbatim>\<open>range\<close> only print, so they leave the tree as it is. The first error ends the
  history, as \<^verbatim>\<open>die\<close> and a failed assertion end the process.
\<close>

datatype command =
    Put KEY_t VAL_t
  | Get KEY_t
  | Range KEY_t KEY_t
  | Del KEY_t
  | Load "byte list option"

fun exec :: "LSMTree \<Rightarrow> command \<Rightarrow> error + LSMTree" where
  "exec t (Put k v) = put t k v"
| "exec t (Get k) = Inr t"
| "exec t (Range start end') = Inr t"
| "exec t (Del k) = del t k"
| "exec t (Load file) = load t file"

fun exec_all :: "LSMTree \<Rightarrow> command list \<Rightarrow> error + LSMTree" where
  "exec_all t [] = Inr t"
| "exec_all t (c # cs) = (case exec t c of Inl e \<Rightarrow> Inl e | Inr t' \<Rightarrow> exec_all t' cs)"

subsection \<open>Auxiliary notions for the statements\<close>

text \<open>The entries \<^verbatim>\<open>next()\<close> returns, in order, until \<^verbatim>\<open>done()\<close> holds.\<close>

function merge_all :: "MergeContext \<Rightarrow> entry_t list" where
  "merge_all ctx =
     (if merge_done ctx then []
      else (case merge_next ctx of
              None \<Rightarrow> []
            | Some (entry, ctx') \<Rightarrow> entry # merge_all ctx'))"
  by pat_completeness auto
termination
  by (relation "measure (\<lambda>ctx. length (concat ctx))") (auto dest: merge_next_decreases)

text \<open>
  The complete records of a file: record \<open>i\<close> is the eight bytes from offset \<open>8 * i\<close>,
  for every \<open>i\<close> below the number of whole records; trailing bytes that do not fill a
  record belong to none.
\<close>

definition complete_records :: "byte list \<Rightarrow> entry_t list" where
  "complete_records s =
     map (\<lambda>i. (decode_int (take 4 (drop (8 * i) s)), decode_int (take 4 (drop (8 * i + 4) s))))
       [0..<length s div 8]"

text \<open>Every level has the same \<^verbatim>\<open>max_runs\<close>, the fanout the tree was built with.\<close>

definition levels_ok :: "int \<Rightarrow> Level list \<Rightarrow> bool" where
  "levels_ok fanout ls = (\<forall>l\<in>set ls. max_runs l = fanout)"

text \<open>
  What every tree built by the constructor and changed by the public operations
  satisfies. When \<^verbatim>\<open>merge_ratio * max_runs\<close> truncates to zero a merge removes no run,
  and then either no level below the first has a run yet, or the first level has
  already grown past \<^verbatim>\<open>max_runs\<close> and is never merged again.
\<close>

definition tree_inv :: "rat \<Rightarrow> int \<Rightarrow> LSMTree \<Rightarrow> bool" where
  "tree_inv ratio fanout t =
     (merge_ratio t = ratio \<and> levels_ok fanout (levels t)
      \<and> (trunc_int (ratio * of_int fanout) \<noteq> 0
         \<or> levels t = []
         \<or> (\<forall>l\<in>set (tl (levels t)). runs l = [])
         \<or> remaining (hd (levels t)) < 0))"

text \<open>
  The capacity of a level: at most \<^verbatim>\<open>max_runs\<close> runs, each of at most
  \<^verbatim>\<open>max_run_size\<close> entries. \<open>geometric\<close> is the shape the constructor gives the
  levels; \<open>buffer_ok\<close> says that the buffer is within its capacity and sorted with one
  entry per key.
\<close>

definition level_capacity :: "Level \<Rightarrow> bool" where
  "level_capacity l =
     (int (length (runs l)) \<le> max_runs l
      \<and> (\<forall>r\<in>set (runs l). int (length (run_entries r)) \<le> max_run_size l))"

fun geometric :: "int \<Rightarrow> int \<Rightarrow> Level list \<Rightarrow> bool" where
  "geometric f m [] = True"
| "geometric f m (l # ls) = (max_runs l = f \<and> max_run_size l = m \<and> geometric f (m * f) ls)"

definition buffer_ok :: "Buffer \<Rightarrow> bool" where
  "buffer_ok b =
     (int (length (entries b)) \<le> max_size b \<and> sorted_wrt (<) (map key (entries b)))"

definition capacity_inv :: "int \<Rightarrow> LSMTree \<Rightarrow> bool" where
  "capacity_inv fanout t =
     (buffer_ok (buffer t)
      \<and> geometric fanout (max_size (buffer t)) (levels t)
      \<and> (\<forall>l\<in>set (levels t). level_capacity l))"

text \<open>
  Trees used as examples. \<open>stale_tree\<close> is the tree after the history of C2,
  \<open>stale_tree_before\<close> the tree two puts earlier, before the merge;
  \<open>deleted_key_tree\<close> is the tree after the history of C4 and C7;
  \<open>overfull_tree\<close> the tree after the history of C5.
\<close>

definition stale_tree_before :: LSMTree where
  "stale_tree_before =
     \<lparr>buffer = \<lparr>max_size = 2, entries = [(4, 0)]\<rparr>,
      levels =
        [\<lparr>max_runs = 2, max_run_size = 2,
          runs = [\<lparr>run_max_size = 2, run_entries = [(1, 10), (2, 0)]\<rparr>,
                  \<lparr>run_max_size = 2, run_entries = [(1, 20), (3, 0)]\<rparr>]\<rparr>,
         \<lparr>max_runs = 2, max_run_size = 4, runs = []\<rparr>],
      num_threads = 1, merge_ratio = 1\<rparr>"

definition stale_tree :: LSMTree where
  "stale_tree =
     \<lparr>buffer = \<lparr>max_size = 2, entries = [(6, 0)]\<rparr>,
      levels =
        [\<lparr>max_runs = 2, max_run_size = 2,
          runs = [\<lparr>run_max_size = 2, run_entries = [(4, 0), (5, 0)]\<rparr>]\<rparr>,
         \<lparr>max_runs = 2, max_run_size = 4,
          runs = [\<lparr>run_max_size = 4, run_entries = [(1, 10), (2, 0), (3, 0)]\<rparr>]\<rparr>],
      num_threads = 1, merge_ratio = 1\<rparr>"

definition deleted_key_tree :: LSMTree where
  "deleted_key_tree =
     \<lparr>buffer = \<lparr>max_size = 1, entries = [(5, 50)]\<rparr>,
      levels =
        [\<lparr>max_runs = 2, max_run_size = 1,
          runs = [\<lparr>run_max_size = 1, run_entries = [(4, 40)]\<rparr>]\<rparr>,
         \<lparr>max_runs = 2, max_run_size = 2,
          runs = [\<lparr>run_max_size = 2, run_entries = [(1, 10), (2, 20)]\<rparr>,
                  \<lparr>run_max_size = 2, run_entries = [(3, 30)]\<rparr>]\<rparr>],
      num_threads = 1, merge_ratio = 1\<rparr>"

definition overfull_tree :: LSMTree where
  "overfull_tree =
     \<lparr>buffer = \<lparr>max_size = 1, entries = [(3, 3)]\<rparr>,
      levels =
        [\<lparr>max_runs = 1, max_run_size = 1,
          runs = [\<lparr>run_max_size = 1, run_entries = [(1, 1)]\<rparr>,
                  \<lparr>run_max_size = 1, run_entries = [(2, 2)]\<rparr>]\<rparr>,
         \<lparr>max_runs = 1, max_run_size = 1,
          runs = [\<lparr>run_max_size = 1, run_entries = []\<rparr>]\<rparr>],
      num_threads = 1, merge_ratio = 1 / 2\<rparr>"

text \<open>
  \<open>chain_tree\<close> is a tree of three levels whose first two levels are full, and
  \<open>chain_tree_after\<close> the same tree one put later.
\<close>

definition chain_tree :: LSMTree where
  "chain_tree =
     \<lparr>buffer = \<lparr>max_size = 1, entries = [(3, 3)]\<rparr>,
      levels =
        [\<lparr>max_runs = 1, max_run_size = 1,
          runs = [\<lparr>run_max_size = 1, run_entries = [(2, 2)]\<rparr>]\<rparr>,
         \<lparr>max_runs = 1, max_run_size = 1,
          runs = [\<lparr>run_max_size = 1, run_entries = [(1, 1)]\<rparr>]\<rparr>,
         \<lparr>max_runs = 1, max_run_size = 1, runs = []\<rparr>],
      num_threads = 1, merge_ratio = 1\<rparr>"

definition chain_tree_after :: LSMTree where
  "chain_tree_after =
     \<lparr>buffer = \<lparr>max_size = 1, entries = [(4, 4)]\<rparr>,
      levels =
        [\<lparr>max_runs = 1, max_run_size = 1,
          runs = [\<lparr>run_max_size = 1, run_entries = [(3, 3)]\<rparr>]\<rparr>,
         \<lparr>max_runs = 1, max_run_size = 1,
          runs = [\<lparr>run_max_size = 1, run_entries = [(2, 2)]\<rparr>]\<rparr>,
         \<lparr>max_runs = 1, max_run_size = 1,
          runs = [\<lparr>run_max_size = 1, run_entries = [(1, 1)]\<rparr>]\<rparr>],
      num_threads = 1, merge_ratio = 1\<rparr>"

text \<open>Two levels used as examples: one that is full, one whose only entry is a tombstone.\<close>

definition full_level :: Level where
  "full_level =
     \<lparr>max_runs = 1, max_run_size = 1,
      runs = [\<lparr>run_max_size = 1, run_entries = [(1, 1)]\<rparr>]\<rparr>"

definition tombstone_level :: Level where
  "tombstone_level =
     \<lparr>max_runs = 1, max_run_size = 1,
      runs = [\<lparr>run_max_size = 1, run_entries = [(1, VAL_TOMBSTONE)]\<rparr>]\<rparr>"

declare make_levels.simps [simp del]
declare merge_drain.simps [simp del]
declare merge_all.simps [simp del]
declare search.simps [simp del]
declare collect_ranges.simps [simp del]
declare range_emit.simps [simp del]
declare show_nat.simps [simp del]
declare load_loop.simps [simp del]

section \<open>Lemmas\<close>

subsection \<open>The merge context and the drain loop\<close>

lemma foldl_merge_add: "foldl merge_add ctx xs = ctx @ xs"
  by (induction xs arbitrary: ctx) (auto simp: merge_add_def)

lemma first_with_mem: "first_with k ctx = Some e \<Longrightarrow> e \<in> set (concat ctx)"
  by (induction k ctx rule: first_with.induct) (auto split: if_splits)

lemma advance_subset: "set (advance k s) \<subseteq> set s"
  by (cases s) auto

lemma merge_next_mem:
  "merge_next ctx = Some (e, ctx') \<Longrightarrow> e \<in> set (concat ctx) \<and> set (concat ctx') \<subseteq> set (concat ctx)"
  using advance_subset
  by (fastforce simp: merge_next_def dest: first_with_mem split: option.splits)

lemma merge_drain_all_tombstones:
  "\<forall>e\<in>set (concat ctx). val e = VAL_TOMBSTONE \<Longrightarrow> merge_drain True ctx out = out"
proof (induction "True" ctx out rule: merge_drain.induct)
  case (1 ctx out)
  show ?case
  proof (cases "merge_done ctx")
    case True
    then show ?thesis by (simp add: merge_drain.simps)
  next
    case False
    then obtain e ctx' where n: "merge_next ctx = Some (e, ctx')"
      using merge_next_Some by blast
    from merge_next_mem [OF n] 1(2) have e: "val e = VAL_TOMBSTONE"
      and rest: "\<forall>e\<in>set (concat ctx'). val e = VAL_TOMBSTONE" by auto
    from 1(1) [OF False n refl] rest e
    have ih: "merge_drain True ctx' out = out" by simp
    have "merge_drain True ctx out = merge_drain True ctx' out"
      using False n e by (subst merge_drain.simps) simp
    with ih show ?thesis by simp
  qed
qed

lemma merge_drain_entries:
  "run_entries (merge_drain deepest ctx out) =
   run_entries out @ filter (\<lambda>e. \<not> (deepest \<and> val e = VAL_TOMBSTONE)) (merge_all ctx)"
proof (induction deepest ctx out rule: merge_drain.induct)
  case (1 deepest ctx out)
  show ?case
  proof (cases "merge_done ctx")
    case True
    then show ?thesis by (simp add: merge_drain.simps merge_all.simps)
  next
    case False
    then obtain e ctx' where n: "merge_next ctx = Some (e, ctx')"
      using merge_next_Some by blast
    let ?out = "if \<not> (deepest \<and> val e = VAL_TOMBSTONE) then run_put out e else out"
    have d: "merge_drain deepest ctx out = merge_drain deepest ctx' ?out"
      using False n by (subst merge_drain.simps) simp
    have a: "merge_all ctx = e # merge_all ctx'"
      using False n by (subst merge_all.simps) simp
    from 1 [OF False n refl]
    have "run_entries (merge_drain deepest ctx' ?out) =
          run_entries ?out @ filter (\<lambda>e. \<not> (deepest \<and> val e = VAL_TOMBSTONE)) (merge_all ctx')" .
    with d a show ?thesis by (simp add: run_put_def)
  qed
qed

subsection \<open>merge_down\<close>

lemma merge_runs_shape:
  "merge_runs ratio current next deeper =
     current\<lparr>runs := drop (merge_size ratio current) (runs current)\<rparr>
     # next\<lparr>runs := runs next @ [merge_drain (deeper = [])
            (map run_entries (take (merge_size ratio current) (runs current)))
            (Run_new (max_run_size next))]\<rparr>
     # deeper"
  by (simp add: merge_runs_def Let_def foldl_merge_add)

lemma merge_down_preserves:
  "merge_down ratio ls = Inr ls' \<Longrightarrow>
     length ls' = length ls \<and> map max_runs ls' = map max_runs ls
     \<and> map max_run_size ls' = map max_run_size ls"
proof (induction ratio ls arbitrary: ls' rule: merge_down.induct)
  case (1 ratio)
  then show ?case by simp
next
  case (2 ratio current)
  then show ?case by (auto split: if_splits)
next
  case (3 ratio current "next" deeper)
  show ?case
  proof (cases "runs current = []")
    case True
    with 3(2) show ?thesis by simp
  next
    case False
    show ?thesis
    proof (cases "remaining next = 0")
      case True
      with False 3(2) obtain next' deeper' where
        r: "merge_down ratio (next # deeper) = Inr (next' # deeper')"
        and l: "ls' = merge_runs ratio current next' deeper'"
        by (auto split: sum.splits list.splits if_splits)
      from 3(1) [OF False True r] l show ?thesis
        by (simp add: merge_runs_shape)
    next
      case f: False
      with False 3(2) show ?thesis by (auto simp: merge_runs_shape)
    qed
  qed
qed

lemma merge_size_pos:
  "runs current \<noteq> [] \<Longrightarrow> trunc_int (ratio * of_int (max_runs current)) \<noteq> 0 \<Longrightarrow>
   1 \<le> merge_size ratio current"
  by (cases "runs current") (auto simp: merge_size_def Let_def)

lemma merge_size_zero:
  "trunc_int (ratio * of_int (max_runs current)) = 0 \<Longrightarrow> merge_size ratio current = 0"
  by (simp add: merge_size_def Let_def)

lemma merge_down_front:
  assumes "merge_down ratio (current # rest) = Inr ls'" and "runs current \<noteq> []"
  shows "\<exists>current' rest'. ls' = current' # rest'
           \<and> runs current' = drop (merge_size ratio current) (runs current)
           \<and> max_runs current' = max_runs current"
proof (cases rest)
  case Nil
  with assms show ?thesis by simp
next
  case (Cons nxt deeper)
  with assms show ?thesis
    by (auto simp: merge_runs_shape split: if_splits sum.splits list.splits)
qed

subsection \<open>range on an empty interval\<close>

lemma range_empty_interval: "end' \<le> start \<Longrightarrow> range_lsm t start end' = endl"
  by (simp add: range_lsm_def)

subsection \<open>The loop of load\<close>

lemma read_entry_Some:
  "8 \<le> length s \<Longrightarrow>
   read_entry s = Some ((decode_int (take 4 s), decode_int (take 4 (drop 4 s))), drop 8 s)"
  by (simp add: read_entry_def stream_read_def sizeof_KEY_t_def sizeof_VAL_t_def)

lemma read_entry_None: "length s < 8 \<Longrightarrow> read_entry s = None"
  by (auto simp: read_entry_def stream_read_def sizeof_KEY_t_def sizeof_VAL_t_def)

lemma complete_records_short: "length s < 8 \<Longrightarrow> complete_records s = []"
  by (simp add: complete_records_def)

lemma complete_records_step:
  assumes "8 \<le> length s"
  shows "complete_records s =
     (decode_int (take 4 s), decode_int (take 4 (drop 4 s))) # complete_records (drop 8 s)"
proof -
  from assms have d: "length s div 8 = Suc ((length s - 8) div 8)"
    by (simp add: le_div_geq)
  have u: "[0..<Suc n] = 0 # map Suc [0..<n]" for n
    by (simp add: upt_conv_Cons map_Suc_upt del: upt_Suc)
  show ?thesis
    unfolding complete_records_def d u
    by (simp add: o_def add.commute [of 8] add.assoc del: upt_Suc)
qed

lemma load_loop_records:
  "load_loop t s = exec_all t (map (\<lambda>e. Put (key e) (val e)) (complete_records s))"
proof (induction t s rule: load_loop.induct)
  case (1 t s)
  show ?case
  proof (cases "8 \<le> length s")
    case False
    then show ?thesis
      by (subst load_loop.simps) (simp add: read_entry_None complete_records_short)
  next
    case True
    let ?e = "(decode_int (take 4 s), decode_int (take 4 (drop 4 s)))"
    show ?thesis
    proof (cases "put t (key ?e) (val ?e)")
      case (Inl err)
      with True show ?thesis
        by (subst load_loop.simps) (simp add: read_entry_Some complete_records_step)
    next
      case (Inr t')
      from 1 [OF read_entry_Some [OF True] refl Inr]
      have "load_loop t' (drop 8 s) =
        exec_all t' (map (\<lambda>e. Put (key e) (val e)) (complete_records (drop 8 s)))" .
      with True Inr show ?thesis
        by (subst load_loop.simps) (simp add: read_entry_Some complete_records_step)
    qed
  qed
qed

lemma merge_down_not_corrupt: "merge_down ratio ls \<noteq> Inl CorruptInput"
  by (induction ratio ls rule: merge_down.induct) (auto split: sum.splits list.splits)

lemma put_not_corrupt: "put t k v \<noteq> Inl CorruptInput"
  using merge_down_not_corrupt
  by (auto simp: put_def Let_def split: prod.splits bool.splits list.splits sum.splits if_splits)

lemma puts_not_corrupt: "exec_all t (map (\<lambda>e. Put (key e) (val e)) es) \<noteq> Inl CorruptInput"
proof (induction es arbitrary: t)
  case Nil
  then show ?case by simp
next
  case (Cons e es)
  with put_not_corrupt [of t "key e" "val e"] show ?case
    by (cases "put t (key e) (val e)") auto
qed

subsection \<open>The assertion after the recursive call\<close>

lemma make_levels_fresh:
  "\<forall>l\<in>set (make_levels depth fanout m). max_runs l = fanout \<and> runs l = []"
proof (induction depth fanout m rule: make_levels.induct)
  case (1 depth fanout m)
  show ?case
  proof (cases "depth > 0")
    case True
    with 1 show ?thesis
      by (subst make_levels.simps) (simp add: Level_new_def)
  next
    case False
    then show ?thesis by (subst make_levels.simps) simp
  qed
qed

lemma merge_down_no_assert:
  "levels_ok fanout ls \<Longrightarrow> trunc_int (ratio * of_int fanout) \<noteq> 0 \<Longrightarrow>
   merge_down ratio ls \<noteq> Inl AssertRemaining"
proof (induction ratio ls rule: merge_down.induct)
  case (1 ratio)
  then show ?case by simp
next
  case (2 ratio current)
  then show ?case by simp
next
  case (3 ratio current nxt deeper)
  show ?case
  proof (cases "runs current \<noteq> [] \<and> remaining nxt = 0")
    case False
    then show ?thesis by (auto split: sum.splits list.splits)
  next
    case True
    then have ne: "runs current \<noteq> []" and z: "remaining nxt = 0" by simp_all
    from 3(2) have ok: "levels_ok fanout (nxt # deeper)" and mr: "max_runs nxt = fanout"
      by (simp_all add: levels_ok_def)
    from 3(1) [OF ne z ok 3(3)]
    have ih: "merge_down ratio (nxt # deeper) \<noteq> Inl AssertRemaining" .
    have pass: "remaining nxt' > 0"
      if r: "merge_down ratio (nxt # deeper) = Inr (nxt' # deeper')" for nxt' deeper'
    proof -
      have f0: "trunc_int (ratio * of_int fanout) \<noteq> 0" by (rule 3(3))
      have "fanout \<noteq> 0" using f0 by (auto simp: trunc_int_def)
      with z mr have nn: "runs nxt \<noteq> []" by (auto simp: remaining_def)
      from merge_down_front [OF r nn]
      have rn: "runs nxt' = drop (merge_size ratio nxt) (runs nxt)" and mn: "max_runs nxt' = max_runs nxt"
        by simp_all
      from merge_size_pos [OF nn] f0 mr have "1 \<le> merge_size ratio nxt" by simp
      with rn nn have "length (runs nxt') < length (runs nxt)" by (cases "runs nxt") auto
      with z mn show ?thesis by (simp add: remaining_def)
    qed
    show ?thesis
    proof (cases "merge_down ratio (nxt # deeper)")
      case (Inl e)
      with ih ne z show ?thesis by auto
    next
      case (Inr rest')
      show ?thesis
      proof (cases rest')
        case Nil
        with Inr ne z show ?thesis by simp
      next
        case (Cons nxt' deeper')
        with Inr pass have "remaining nxt' > 0" by simp
        with Inr Cons ne z show ?thesis by simp
      qed
    qed
  qed
qed

lemma merge_down_all_empty_below:
  assumes z: "trunc_int (ratio * of_int fanout) = 0"
    and ok: "levels_ok fanout (front # rest)"
    and em: "\<forall>l\<in>set rest. runs l = []"
    and rz: "remaining front = 0"
  shows "merge_down ratio (front # rest) \<noteq> Inl AssertRemaining
     \<and> (\<forall>ls'. merge_down ratio (front # rest) = Inr ls' \<longrightarrow>
           (\<exists>front' rest'. ls' = front' # rest' \<and> runs front' = runs front))"
proof (cases "runs front = []")
  case True
  then show ?thesis by (cases rest) simp_all
next
  case False
  show ?thesis
  proof (cases rest)
    case Nil
    with False show ?thesis by simp
  next
    case (Cons nxt deeper)
    from ok have mf: "max_runs front = fanout" by (simp add: levels_ok_def)
    from ok Cons have mn: "max_runs nxt = fanout" by (simp add: levels_ok_def)
    from em Cons have en: "runs nxt = []" by simp
    from rz mf False have "fanout \<noteq> 0" by (auto simp: remaining_def)
    with mn en have nz: "remaining nxt \<noteq> 0" by (simp add: remaining_def)
    from z mf have "merge_size ratio front = 0" by (simp add: merge_size_zero)
    with Cons False nz show ?thesis by (simp add: merge_runs_shape)
  qed
qed

lemma tree_inv_new: "tree_inv ratio fanout (LSMTree_new cap depth fanout threads ratio)"
  using make_levels_fresh [of depth fanout cap]
  by (auto simp: tree_inv_def LSMTree_new_def levels_ok_def dest: list.set_sel(2))

lemma levels_ok_map: "map max_runs ls' = map max_runs ls \<Longrightarrow> levels_ok f ls \<Longrightarrow> levels_ok f ls'"
proof -
  assume a: "map max_runs ls' = map max_runs ls" and b: "levels_ok f ls"
  have "set (map max_runs ls') = set (map max_runs ls)" using a by simp
  then have "max_runs ` set ls' = max_runs ` set ls" by simp
  with b show ?thesis by (auto simp: levels_ok_def)
qed

lemma put_tree_inv:
  assumes inv: "tree_inv ratio fanout t"
  shows "put t k v \<noteq> Inl AssertRemaining \<and> (\<forall>t'. put t k v = Inr t' \<longrightarrow> tree_inv ratio fanout t')"
proof (cases "fst (buffer_put (buffer t) k v)")
  case True
  then obtain b where "buffer_put (buffer t) k v = (True, b)" by (cases "buffer_put (buffer t) k v") simp
  with inv show ?thesis by (auto simp: put_def tree_inv_def)
next
  case False
  then obtain b where bp: "buffer_put (buffer t) k v = (False, b)" by (cases "buffer_put (buffer t) k v") simp
  show ?thesis
  proof (cases "levels t")
    case Nil
    with bp show ?thesis by (simp add: put_def)
  next
    case (Cons front rest)
    from inv Cons have ok: "levels_ok fanout (front # rest)" and mr: "merge_ratio t = ratio"
      by (simp_all add: tree_inv_def)
    define mid where "mid = (if remaining front = 0 then merge_down ratio (front # rest) else Inr (front # rest))"
    have put_eq: "put t k v = (case mid of Inl e \<Rightarrow> Inl e | Inr [] \<Rightarrow> Inl NoLevel
        | Inr (front' # rest') \<Rightarrow>
            (let new_run = foldl run_put (Run_new (max_run_size front')) (entries (buffer t));
                 ls = front'\<lparr>runs := runs front' @ [new_run]\<rparr> # rest'
             in (case buffer_put (buffer_empty (buffer t)) k v of
                   (True, b) \<Rightarrow> Inr (t\<lparr>buffer := b, levels := ls\<rparr>)
                 | (False, _) \<Rightarrow> Inl AssertBufferPut)))"
      using bp Cons mr by (simp add: put_def mid_def)
    have mid_ok: "mid \<noteq> Inl AssertRemaining \<and>
       (\<forall>front' rest'. mid = Inr (front' # rest') \<longrightarrow>
          levels_ok fanout (front' # rest')
          \<and> (trunc_int (ratio * of_int fanout) \<noteq> 0
               \<or> remaining front' < 1 \<or> (\<forall>l\<in>set rest'. runs l = [])))"
    proof (cases "remaining front = 0")
      case rz: True
      then have m: "mid = merge_down ratio (front # rest)" by (simp add: mid_def)
      show ?thesis
      proof (cases "trunc_int (ratio * of_int fanout) = 0")
        case False
        have "levels_ok fanout ls'" if r: "mid = Inr ls'" for ls'
        proof -
          from r m have "merge_down ratio (front # rest) = Inr ls'" by simp
          from merge_down_preserves [OF this] have "map max_runs ls' = map max_runs (front # rest)"
            by simp
          then show ?thesis using ok by (rule levels_ok_map)
        qed
        with merge_down_no_assert [OF ok False] m False show ?thesis by simp
      next
        case z: True
        from inv Cons rz z have em: "\<forall>l\<in>set rest. runs l = []" by (auto simp: tree_inv_def)
        from merge_down_all_empty_below [OF z ok em rz] m
        have na: "mid \<noteq> Inl AssertRemaining"
          and same: "\<And>ls'. mid = Inr ls' \<Longrightarrow> \<exists>front' rest'. ls' = front' # rest' \<and> runs front' = runs front"
          by auto
        have "levels_ok fanout (front' # rest') \<and> remaining front' < 1"
          if r: "mid = Inr (front' # rest')" for front' rest'
        proof -
          from same [OF r] have rf: "runs front' = runs front" by simp
          from r m merge_down_preserves [of ratio "front # rest" "front' # rest'"]
          have mm: "map max_runs (front' # rest') = map max_runs (front # rest)" by simp
          from levels_ok_map [OF mm ok] have ok': "levels_ok fanout (front' # rest')" .
          from mm have "max_runs front' = max_runs front" by simp
          with rf rz have "remaining front' = 0" by (simp add: remaining_def)
          with ok' show ?thesis by simp
        qed
        with na show ?thesis by blast
      qed
    next
      case nz: False
      then have m: "mid = Inr (front # rest)" by (simp add: mid_def)
      from inv Cons have "trunc_int (ratio * of_int fanout) \<noteq> 0
         \<or> (\<forall>l\<in>set rest. runs l = []) \<or> remaining front < 0"
        by (auto simp: tree_inv_def)
      with m ok show ?thesis by auto
    qed
    show ?thesis
    proof (cases mid)
      case (Inl e)
      with mid_ok put_eq show ?thesis by simp
    next
      case (Inr ls')
      show ?thesis
      proof (cases ls')
        case Nil
        with Inr put_eq show ?thesis by simp
      next
        case c: (Cons front' rest')
        with Inr mid_ok have ok': "levels_ok fanout (front' # rest')"
          and d: "trunc_int (ratio * of_int fanout) \<noteq> 0
               \<or> remaining front' < 1 \<or> (\<forall>l\<in>set rest'. runs l = [])" by simp_all
        show ?thesis
        proof (cases "fst (buffer_put (buffer_empty (buffer t)) k v)")
          case False
          then obtain b' where "buffer_put (buffer_empty (buffer t)) k v = (False, b')"
            by (cases "buffer_put (buffer_empty (buffer t)) k v") simp
          with Inr c put_eq show ?thesis by (simp add: Let_def)
        next
          case True
          then obtain b' where b': "buffer_put (buffer_empty (buffer t)) k v = (True, b')"
            by (cases "buffer_put (buffer_empty (buffer t)) k v") simp
          define new_run where "new_run = foldl run_put (Run_new (max_run_size front')) (entries (buffer t))"
          from Inr c put_eq b' have pe: "put t k v =
             Inr (t\<lparr>buffer := b', levels := front'\<lparr>runs := runs front' @ [new_run]\<rparr> # rest'\<rparr>)"
            by (simp add: Let_def new_run_def)
          have "tree_inv ratio fanout (t\<lparr>buffer := b', levels := front'\<lparr>runs := runs front' @ [new_run]\<rparr> # rest'\<rparr>)"
            using ok' d mr by (auto simp: tree_inv_def levels_ok_def remaining_def)
          with pe show ?thesis by simp
        qed
      qed
    qed
  qed
qed

lemma puts_tree_inv:
  "tree_inv ratio fanout t \<Longrightarrow>
   exec_all t (map (\<lambda>e. Put (key e) (val e)) es) \<noteq> Inl AssertRemaining
   \<and> (\<forall>t'. exec_all t (map (\<lambda>e. Put (key e) (val e)) es) = Inr t' \<longrightarrow> tree_inv ratio fanout t')"
proof (induction es arbitrary: t)
  case Nil
  then show ?case by simp
next
  case (Cons e es)
  from put_tree_inv [OF Cons.prems, of "key e" "val e"] Cons.IH
  show ?case by (cases "put t (key e) (val e)") auto
qed

lemma exec_tree_inv:
  assumes "tree_inv ratio fanout t"
  shows "exec t c \<noteq> Inl AssertRemaining \<and> (\<forall>t'. exec t c = Inr t' \<longrightarrow> tree_inv ratio fanout t')"
proof (cases c)
  case (Put k v)
  with put_tree_inv [OF assms] show ?thesis by simp
next
  case (Get k)
  with assms show ?thesis by simp
next
  case (Range a b)
  with assms show ?thesis by simp
next
  case (Del k)
  with put_tree_inv [OF assms] show ?thesis by (simp add: del_def)
next
  case (Load f)
  show ?thesis
  proof (cases f)
    case None
    with Load show ?thesis by (simp add: load_def)
  next
    case (Some s)
    with Load puts_tree_inv [OF assms, of "complete_records s"] show ?thesis
      by (simp add: load_def load_loop_records)
  qed
qed

lemma exec_all_tree_inv:
  "tree_inv ratio fanout t \<Longrightarrow> exec_all t cs \<noteq> Inl AssertRemaining"
proof (induction cs arbitrary: t)
  case Nil
  then show ?case by simp
next
  case (Cons c cs)
  from exec_tree_inv [OF Cons.prems, of c] Cons.IH
  show ?case by (cases "exec t c") auto
qed

text \<open>
  The assertion of line 64 can fail on levels that no history produces: with a ratio that
  truncates to zero, a full second level is merged down without losing a run.
\<close>

lemma assertion_fails_on_unreachable_state:
  "merge_down (1 / 2) [full_level, full_level, Level_new 1 1] = Inl AssertRemaining"
  by code_simp

subsection \<open>Level capacity\<close>

text \<open>
  When \<^verbatim>\<open>merge_ratio * max_runs\<close> does not truncate to zero, every public operation keeps
  every level within its capacity. (C5 shows what happens when it does.)
\<close>

lemma buffer_insert_keys: "key ` set (buffer_insert e xs) = insert (key e) (key ` set xs)"
  by (induction xs) auto

lemma buffer_insert_sorted:
  "sorted_wrt (<) (map key xs) \<Longrightarrow> sorted_wrt (<) (map key (buffer_insert e xs))"
proof (induction xs)
  case Nil
  then show ?case by simp
next
  case (Cons x xs)
  have k: "key ` set (buffer_insert e xs) = insert (key e) (key ` set xs)"
    by (rule buffer_insert_keys)
  from Cons k show ?case by auto
qed

lemma buffer_insert_length:
  "sorted_wrt (<) (map key xs) \<Longrightarrow>
   length (buffer_insert e xs) = (if key e \<in> key ` set xs then length xs else Suc (length xs))"
  by (induction xs) auto

lemma buffer_get_None: "buffer_get b k = None \<longleftrightarrow> k \<notin> key ` set (entries b)"
proof -
  have "key = fst" by (rule ext) (simp add: key_def)
  then show ?thesis by (simp add: buffer_get_def map_of_eq_None_iff)
qed

lemma buffer_put_ok:
  assumes "buffer_ok b" and "buffer_put b k v = (True, b')"
  shows "buffer_ok b' \<and> max_size b' = max_size b"
proof -
  from assms(1) have s: "sorted_wrt (<) (map key (entries b))"
    and l: "int (length (entries b)) \<le> max_size b" by (simp_all add: buffer_ok_def)
  have kk: "key (k, v) = k" by (simp add: key_def)
  show ?thesis
  proof (cases "buffer_get b k = None")
    case True
    with assms(2) have f: "\<not> max_size b \<le> int (length (entries b))"
      and b': "b' = b\<lparr>entries := buffer_insert (k, v) (entries b)\<rparr>"
      by (auto simp: buffer_put_def split: if_splits)
    from True have "k \<notin> key ` set (entries b)" by (simp add: buffer_get_None)
    with buffer_insert_length [OF s, of "(k, v)"] kk
    have "length (buffer_insert (k, v) (entries b)) = Suc (length (entries b))" by simp
    with f b' buffer_insert_sorted [OF s, of "(k, v)"] show ?thesis
      by (simp add: buffer_ok_def)
  next
    case False
    with assms(2) have b': "b' = b\<lparr>entries := buffer_insert (k, v) (entries b)\<rparr>"
      by (auto simp: buffer_put_def split: if_splits)
    from False have "k \<in> key ` set (entries b)" by (simp add: buffer_get_None)
    with buffer_insert_length [OF s, of "(k, v)"] kk
    have "length (buffer_insert (k, v) (entries b)) = length (entries b)" by simp
    with l b' buffer_insert_sorted [OF s, of "(k, v)"] show ?thesis
      by (simp add: buffer_ok_def)
  qed
qed

lemma merge_all_length: "length (merge_all ctx) \<le> length (concat ctx)"
proof (induction ctx rule: merge_all.induct)
  case (1 ctx)
  show ?case
  proof (cases "merge_done ctx")
    case True
    then show ?thesis by (simp add: merge_all.simps)
  next
    case False
    then obtain e ctx' where n: "merge_next ctx = Some (e, ctx')"
      using merge_next_Some by blast
    from 1 [OF False n refl] have "length (merge_all ctx') \<le> length (concat ctx')" .
    with merge_next_decreases [OF n] False n show ?thesis
      by (subst merge_all.simps) simp
  qed
qed

lemma foldl_run_put: "run_entries (foldl run_put r es) = run_entries r @ es"
  by (induction es arbitrary: r) (simp_all add: run_put_def)

lemma runs_total_length:
  "\<forall>r\<in>set rs. int (length (run_entries r)) \<le> m \<Longrightarrow>
   int (length (concat (map run_entries rs))) \<le> int (length rs) * m"
proof (induction rs)
  case Nil
  then show ?case by simp
next
  case (Cons r rs)
  then have "int (length (run_entries r)) \<le> m"
    and "int (length (concat (map run_entries rs))) \<le> int (length rs) * m" by simp_all
  then show ?case by (simp add: algebra_simps)
qed

lemma merged_run_fits:
  assumes cap: "level_capacity current" and ne: "runs current \<noteq> []"
  shows "int (length (run_entries (merge_drain d
            (map run_entries (take n (runs current))) (Run_new s))))
         \<le> max_runs current * max_run_size current"
proof -
  let ?m = "max_run_size current"
  let ?rs = "take n (runs current)"
  from cap have each: "\<forall>r\<in>set (runs current). int (length (run_entries r)) \<le> ?m"
    and len: "int (length (runs current)) \<le> max_runs current"
    by (simp_all add: level_capacity_def)
  from ne obtain r where "r \<in> set (runs current)" by (cases "runs current") auto
  with each have m0: "0 \<le> ?m" by fastforce
  from each have "\<forall>r\<in>set ?rs. int (length (run_entries r)) \<le> ?m"
    by (auto dest: in_set_takeD)
  from runs_total_length [OF this]
  have a: "int (length (concat (map run_entries ?rs))) \<le> int (length ?rs) * ?m" .
  have "int (length ?rs) \<le> max_runs current" using len by simp
  then have b: "int (length ?rs) * ?m \<le> max_runs current * ?m"
    using m0 by (rule mult_right_mono)
  have "length (run_entries (merge_drain d (map run_entries ?rs) (Run_new s)))
        \<le> length (merge_all (map run_entries ?rs))"
    by (simp add: merge_drain_entries Run_new_def)
  also have "\<dots> \<le> length (concat (map run_entries ?rs))" by (rule merge_all_length)
  finally have "int (length (run_entries (merge_drain d (map run_entries ?rs) (Run_new s))))
        \<le> int (length (concat (map run_entries ?rs)))" by simp
  with a b show ?thesis by linarith
qed

lemma merge_runs_capacity:
  assumes g: "geometric f m (current # nxt # deeper)"
    and cc: "level_capacity current" and cn: "level_capacity nxt"
    and ne: "runs current \<noteq> []" and room: "remaining nxt > 0"
  shows "geometric f m (merge_runs ratio current nxt deeper)
     \<and> (\<forall>l\<in>set (take 2 (merge_runs ratio current nxt deeper)). level_capacity l)"
proof -
  let ?n = "merge_size ratio current"
  let ?out = "merge_drain (deeper = []) (map run_entries (take ?n (runs current)))
                (Run_new (max_run_size nxt))"
  let ?c = "current\<lparr>runs := drop ?n (runs current)\<rparr>"
  let ?x = "nxt\<lparr>runs := runs nxt @ [?out]\<rparr>"
  have shape: "merge_runs ratio current nxt deeper = ?c # ?x # deeper"
    by (rule merge_runs_shape)
  from g have mc: "max_runs current = f" and sc: "max_run_size current = m"
    and sn: "max_run_size nxt = m * f" by simp_all
  from g have geo: "geometric f m (?c # ?x # deeper)" by simp
  from cc have c1: "level_capacity ?c"
    by (auto simp: level_capacity_def dest: in_set_dropD)
  from merged_run_fits [OF cc ne, of "deeper = []" ?n "max_run_size nxt"] mc sc sn
  have fits: "int (length (run_entries ?out)) \<le> max_run_size nxt"
    by (simp add: mult.commute)
  from cn room fits have c2: "level_capacity ?x"
    by (auto simp: level_capacity_def remaining_def)
  from geo c1 c2 shape show ?thesis by simp
qed

lemma merge_down_capacity:
  "geometric f m ls \<Longrightarrow> \<forall>l\<in>set ls. level_capacity l \<Longrightarrow> merge_down ratio ls = Inr ls' \<Longrightarrow>
   geometric f m ls' \<and> (\<forall>l\<in>set ls'. level_capacity l)"
proof (induction ratio ls arbitrary: m ls' rule: merge_down.induct)
  case (1 ratio)
  then show ?case by simp
next
  case (2 ratio current)
  then show ?case by (auto split: if_splits)
next
  case (3 ratio current nxt deeper)
  show ?case
  proof (cases "runs current = []")
    case True
    with 3(2,3,4) show ?thesis by auto
  next
    case ne: False
    from 3(2) have g': "geometric f (m * f) (nxt # deeper)"
      and mc: "max_runs current = f" and sc: "max_run_size current = m" by simp_all
    from 3(3) have cc: "level_capacity current" and cn: "level_capacity nxt"
      and cd: "\<forall>l\<in>set (nxt # deeper). level_capacity l" by simp_all
    define mid where "mid =
      (if remaining nxt = 0 then merge_down ratio (nxt # deeper) else Inr (nxt # deeper))"
    from 3(4) ne obtain nxt0 deeper0 where mid: "mid = Inr (nxt0 # deeper0)"
      and ls': "ls' = merge_runs ratio current nxt0 deeper0"
      and pass: "remaining nxt = 0 \<Longrightarrow> remaining nxt0 > 0"
      unfolding mid_def by (auto split: if_splits sum.splits list.splits)
    have post: "geometric f (m * f) (nxt0 # deeper0) \<and> (\<forall>l\<in>set (nxt0 # deeper0). level_capacity l)
        \<and> remaining nxt0 > 0"
    proof (cases "remaining nxt = 0")
      case True
      with mid have r: "merge_down ratio (nxt # deeper) = Inr (nxt0 # deeper0)"
        by (simp add: mid_def)
      from 3(1) [OF ne True g' cd r] pass [OF True] show ?thesis by simp
    next
      case False
      with mid have "nxt0 = nxt" "deeper0 = deeper" by (simp_all add: mid_def)
      moreover from cn have "0 \<le> remaining nxt" by (simp add: level_capacity_def remaining_def)
      ultimately show ?thesis using g' cd False by simp
    qed
    from post mc sc have g0: "geometric f m (current # nxt0 # deeper0)" by simp
    from post have cn0: "level_capacity nxt0" and cd0: "\<forall>l\<in>set deeper0. level_capacity l"
      and room: "remaining nxt0 > 0" by simp_all
    from merge_runs_capacity [OF g0 cc cn0 ne room, of ratio]
    have a: "geometric f m (merge_runs ratio current nxt0 deeper0)"
      and b: "\<forall>l\<in>set (take 2 (merge_runs ratio current nxt0 deeper0)). level_capacity l"
      by simp_all
    have "set (merge_runs ratio current nxt0 deeper0) =
          set (take 2 (merge_runs ratio current nxt0 deeper0)) \<union> set deeper0"
      by (simp add: merge_runs_shape)
    with b cd0 have "\<forall>l\<in>set (merge_runs ratio current nxt0 deeper0). level_capacity l"
      by blast
    with a ls' show ?thesis by simp
  qed
qed

lemma make_levels_geometric: "geometric fanout m (make_levels depth fanout m)"
proof (induction depth fanout m rule: make_levels.induct)
  case (1 depth fanout m)
  show ?case
  proof (cases "depth > 0")
    case True
    with 1 show ?thesis by (subst make_levels.simps) (simp add: Level_new_def)
  next
    case False
    then show ?thesis by (subst make_levels.simps) simp
  qed
qed

lemma capacity_inv_new:
  assumes "0 \<le> buffer_max_entries" and "0 \<le> fanout"
  shows "capacity_inv fanout (LSMTree_new buffer_max_entries depth fanout threads ratio)"
proof -
  have "\<forall>l\<in>set (make_levels depth fanout buffer_max_entries). level_capacity l"
    using make_levels_fresh [of depth fanout buffer_max_entries] assms(2)
    by (simp add: level_capacity_def)
  with assms(1) make_levels_geometric [of fanout buffer_max_entries depth] show ?thesis
    by (simp add: capacity_inv_def LSMTree_new_def Buffer_new_def buffer_ok_def)
qed

lemma put_capacity:
  assumes nz: "trunc_int (merge_ratio t * of_int fanout) \<noteq> 0"
    and inv: "capacity_inv fanout t" and p: "put t k v = Inr t'"
  shows "capacity_inv fanout t' \<and> merge_ratio t' = merge_ratio t"
proof (cases "fst (buffer_put (buffer t) k v)")
  case True
  then obtain b where bp: "buffer_put (buffer t) k v = (True, b)"
    by (cases "buffer_put (buffer t) k v") simp
  with p have t': "t' = t\<lparr>buffer := b\<rparr>" by (simp add: put_def)
  from inv have "buffer_ok (buffer t)" by (simp add: capacity_inv_def)
  from buffer_put_ok [OF this bp] inv t' show ?thesis by (simp add: capacity_inv_def)
next
  case False
  then obtain b where bp: "buffer_put (buffer t) k v = (False, b)"
    by (cases "buffer_put (buffer t) k v") simp
  from inv have bok: "buffer_ok (buffer t)"
    and geo: "geometric fanout (max_size (buffer t)) (levels t)"
    and cap: "\<forall>l\<in>set (levels t). level_capacity l" by (simp_all add: capacity_inv_def)
  from bp p obtain front rest where lv: "levels t = front # rest"
    by (cases "levels t") (auto simp: put_def)
  define mid where "mid =
    (if remaining front = 0 then merge_down (merge_ratio t) (front # rest) else Inr (front # rest))"
  from bp p lv obtain front' rest' b' where mid: "mid = Inr (front' # rest')"
    and bp': "buffer_put (buffer_empty (buffer t)) k v = (True, b')"
    and t': "t' = t\<lparr>buffer := b',
         levels := front'\<lparr>runs := runs front' @
           [foldl run_put (Run_new (max_run_size front')) (entries (buffer t))]\<rparr> # rest'\<rparr>"
    unfolding mid_def
    by (auto simp: put_def Let_def split: if_splits sum.splits list.splits prod.splits bool.splits)
  from geo lv have mf: "max_runs front = fanout" and sf: "max_run_size front = max_size (buffer t)"
    by simp_all
  from cap lv have cf: "level_capacity front" by simp
  have post: "geometric fanout (max_size (buffer t)) (front' # rest')
      \<and> (\<forall>l\<in>set (front' # rest'). level_capacity l) \<and> remaining front' > 0"
  proof (cases "remaining front = 0")
    case rz: True
    with mid have r: "merge_down (merge_ratio t) (front # rest) = Inr (front' # rest')"
      by (simp add: mid_def)
    from merge_down_capacity [OF _ _ r, of fanout "max_size (buffer t)"] geo cap lv
    have a: "geometric fanout (max_size (buffer t)) (front' # rest')"
      and b: "\<forall>l\<in>set (front' # rest'). level_capacity l" by simp_all
    from nz have "fanout \<noteq> 0" by (auto simp: trunc_int_def)
    with rz mf have ne: "runs front \<noteq> []" by (auto simp: remaining_def)
    from merge_down_front [OF r ne]
    have rf: "runs front' = drop (merge_size (merge_ratio t) front) (runs front)"
      and mm: "max_runs front' = max_runs front" by simp_all
    from merge_size_pos [OF ne] nz mf have "1 \<le> merge_size (merge_ratio t) front" by simp
    with rf ne have "length (runs front') < length (runs front)" by (cases "runs front") auto
    with rz mm have "remaining front' > 0" by (simp add: remaining_def)
    with a b show ?thesis by simp
  next
    case False
    with mid have "front' = front" "rest' = rest" by (simp_all add: mid_def)
    moreover from cf have "0 \<le> remaining front" by (simp add: level_capacity_def remaining_def)
    ultimately show ?thesis using geo cap lv False by simp
  qed
  let ?new = "foldl run_put (Run_new (max_run_size front')) (entries (buffer t))"
  from post have sf': "max_run_size front' = max_size (buffer t)" by simp
  from bok have "int (length (entries (buffer t))) \<le> max_size (buffer t)"
    by (simp add: buffer_ok_def)
  with sf' have fits: "int (length (run_entries ?new)) \<le> max_run_size front'"
    by (simp add: foldl_run_put Run_new_def)
  from post fits have cf': "level_capacity (front'\<lparr>runs := runs front' @ [?new]\<rparr>)"
    by (auto simp: level_capacity_def remaining_def)
  from bok have "buffer_ok (buffer_empty (buffer t))"
    by (simp add: buffer_ok_def buffer_empty_def)
  from buffer_put_ok [OF this bp'] have bok': "buffer_ok b'"
    and ms: "max_size b' = max_size (buffer t)" by (simp_all add: buffer_empty_def)
  from post cf' bok' ms t' show ?thesis by (simp add: capacity_inv_def)
qed

lemma puts_capacity:
  "trunc_int (merge_ratio t * of_int fanout) \<noteq> 0 \<Longrightarrow> capacity_inv fanout t \<Longrightarrow>
   exec_all t (map (\<lambda>e. Put (key e) (val e)) es) = Inr t' \<Longrightarrow>
   capacity_inv fanout t' \<and> merge_ratio t' = merge_ratio t"
proof (induction es arbitrary: t)
  case Nil
  then show ?case by simp
next
  case (Cons e es)
  from Cons.prems(3) obtain t1 where p: "put t (key e) (val e) = Inr t1"
    and r: "exec_all t1 (map (\<lambda>e. Put (key e) (val e)) es) = Inr t'"
    by (cases "put t (key e) (val e)") simp_all
  from put_capacity [OF Cons.prems(1,2) p]
  have i1: "capacity_inv fanout t1" and m1: "merge_ratio t1 = merge_ratio t" by simp_all
  from Cons.prems(1) m1 have "trunc_int (merge_ratio t1 * of_int fanout) \<noteq> 0" by simp
  from Cons.IH [OF this i1 r] m1 show ?case by simp
qed

lemma exec_capacity:
  assumes nz: "trunc_int (merge_ratio t * of_int fanout) \<noteq> 0"
    and inv: "capacity_inv fanout t" and e: "exec t c = Inr t'"
  shows "capacity_inv fanout t' \<and> merge_ratio t' = merge_ratio t"
proof (cases c)
  case (Put k v)
  with put_capacity [OF nz inv] e show ?thesis by simp
next
  case (Get k)
  with inv e show ?thesis by simp
next
  case (Range a b)
  with inv e show ?thesis by simp
next
  case (Del k)
  with put_capacity [OF nz inv] e show ?thesis by (simp add: del_def)
next
  case (Load f)
  with e obtain s where "f = Some s"
    and "exec_all t (map (\<lambda>e. Put (key e) (val e)) (complete_records s)) = Inr t'"
    by (cases f) (simp_all add: load_def load_loop_records)
  with puts_capacity [OF nz inv] show ?thesis by simp
qed

lemma exec_all_capacity:
  "trunc_int (merge_ratio t * of_int fanout) \<noteq> 0 \<Longrightarrow> capacity_inv fanout t \<Longrightarrow>
   exec_all t cs = Inr t' \<Longrightarrow> capacity_inv fanout t'"
proof (induction cs arbitrary: t)
  case Nil
  then show ?case by simp
next
  case (Cons c cs)
  from Cons.prems(3) obtain t1 where p: "exec t c = Inr t1" and r: "exec_all t1 cs = Inr t'"
    by (cases "exec t c") simp_all
  from exec_capacity [OF Cons.prems(1,2) p]
  have i1: "capacity_inv fanout t1" and m1: "merge_ratio t1 = merge_ratio t" by simp_all
  from Cons.prems(1) m1 have "trunc_int (merge_ratio t1 * of_int fanout) \<noteq> 0" by simp
  from Cons.IH [OF this i1 r] show ?case .
qed

lemma level_capacity_of_history:
  assumes "0 \<le> buffer_max_entries" and "0 \<le> fanout"
    and "trunc_int (ratio * of_int fanout) \<noteq> 0"
    and "exec_all (LSMTree_new buffer_max_entries depth fanout threads ratio) cs = Inr t"
  shows "\<forall>l\<in>set (levels t).
           int (length (runs l)) \<le> max_runs l
           \<and> (\<forall>r\<in>set (runs l). int (length (run_entries r)) \<le> max_run_size l)"
proof -
  have "merge_ratio (LSMTree_new buffer_max_entries depth fanout threads ratio) = ratio"
    by (simp add: LSMTree_new_def)
  with assms(3) exec_all_capacity [OF _ capacity_inv_new [OF assms(1,2)] assms(4)]
  have "capacity_inv fanout t" by simp
  then show ?thesis by (simp add: capacity_inv_def level_capacity_def)
qed

section \<open>The properties of the specification\<close>

text \<open>
  C1. The specification says: \<^verbatim>\<open>merge_down\<close> feeds the oldest \<^verbatim>\<open>merge_size\<close> runs of the current
  level to the merge context newest first, so that the newer run wins on a key both
  hold. The code does not: the loop of lines 75-77 adds \<^verbatim>\<open>runs[0]\<close>, \<^verbatim>\<open>runs[1]\<close>, ...
  in index order, and index 0 is the oldest run (new runs are put at the back). The
  theorem states, for every call, that the context is the first \<^verbatim>\<open>merge_size\<close> runs in
  index order; that with two streams holding key 1 the stream added first wins; and that
  in the tree reached by \<^verbatim>\<open>put(1,10) put(2,0) put(3,0) put(1,20) put(4,0)\<close>, whose first
  level holds the runs \<open>[(1,10),(2,0)]\<close> (older) and \<open>[(1,20),(3,0)]\<close> (newer),
  \<^verbatim>\<open>merge_down\<close> writes \<open>(1,10)\<close>, the older entry, to the next level.
\<close>

theorem merge_down_feeds_oldest_first:
  "merge_runs ratio current next deeper =
     current\<lparr>runs := drop (merge_size ratio current) (runs current)\<rparr>
     # next\<lparr>runs := runs next @ [merge_drain (deeper = [])
            (map run_entries (take (merge_size ratio current) (runs current)))
            (Run_new (max_run_size next))]\<rparr>
     # deeper
   \<and> merge_next [[(1, 10)], [(1, 20)]] = Some ((1, 10), [[], []])
   \<and> exec_all (LSMTree_new 2 2 2 1 1) [Put 1 10, Put 2 0, Put 3 0, Put 1 20, Put 4 0] =
       Inr stale_tree_before
   \<and> merge_down (merge_ratio stale_tree_before) (levels stale_tree_before) =
       Inr [\<lparr>max_runs = 2, max_run_size = 2, runs = []\<rparr>,
            \<lparr>max_runs = 2, max_run_size = 4,
              runs = [\<lparr>run_max_size = 4, run_entries = [(1, 10), (2, 0), (3, 0)]\<rparr>]\<rparr>]"
proof (intro conjI)
  show "merge_runs ratio current next deeper =
     current\<lparr>runs := drop (merge_size ratio current) (runs current)\<rparr>
     # next\<lparr>runs := runs next @ [merge_drain (deeper = [])
            (map run_entries (take (merge_size ratio current) (runs current)))
            (Run_new (max_run_size next))]\<rparr>
     # deeper"
    by (rule merge_runs_shape)
qed code_simp+

text \<open>
  C2. The specification says: after any history of writes, \<^verbatim>\<open>get(k)\<close> prints the value of the latest
  write of \<open>k\<close>. The code does not: after
  \<^verbatim>\<open>put(1,10) put(2,0) put(3,0) put(1,20) put(4,0) put(5,0) put(6,0)\<close> on a tree with a
  buffer of 2 entries, 2 levels, fanout 2 and merge ratio 1, the merge of the first level
  has kept \<open>(1,10)\<close> and dropped \<open>(1,20)\<close>, and \<^verbatim>\<open>get(1)\<close> prints 10.
\<close>

theorem get_returns_stale_value:
  "exec_all (LSMTree_new 2 2 2 1 1)
     [Put 1 10, Put 2 0, Put 3 0, Put 1 20, Put 4 0, Put 5 0, Put 6 0] = Inr stale_tree
   \<and> get stale_tree 1 = ''10'' @ endl"
  by (intro conjI) code_simp+

text \<open>
  C3. The assertion \<^verbatim>\<open>assert(next->remaining() > 0)\<close> of line 64 never fails: for every
  buffer capacity, depth, fanout, number of threads and merge ratio, and every history of
  public operations on the tree the constructor builds, no operation ends with the
  failure of that assertion. (The statement holds for every rational merge ratio, hence
  for those in (0, 1]; since every level has the same \<^verbatim>\<open>max_runs\<close>, it also covers
  whatever rounding the \<^verbatim>\<open>float\<close> product undergoes before it is truncated.)
\<close>

theorem assertion_never_fires:
  "exec_all (LSMTree_new buffer_max_entries depth fanout threads ratio) cs \<noteq> Inl AssertRemaining"
  by (rule exec_all_tree_inv [OF tree_inv_new])

text \<open>
  A history that takes the recursive call: with capacity 1, depth 3, fanout 1 and ratio 1,
  three puts leave the first and the second level full, and the fourth put merges the
  second level down before the first.
\<close>

theorem assertion_never_fires_witness:
  "exec_all (LSMTree_new 1 3 1 1 1) [Put 1 1, Put 2 2, Put 3 3] = Inr chain_tree
   \<and> map remaining (levels chain_tree) = [0, 0, 1]
   \<and> put chain_tree 4 4 = Inr chain_tree_after
   \<and> exec_all (LSMTree_new 1 3 1 1 1) [Put 1 1, Put 2 2, Put 3 3, Put 4 4] \<noteq> Inl AssertRemaining"
proof (intro conjI)
  show "exec_all (LSMTree_new 1 3 1 1 1) [Put 1 1, Put 2 2, Put 3 3, Put 4 4] \<noteq> Inl AssertRemaining"
    by (rule assertion_never_fires)
qed code_simp+

text \<open>
  C4. The specification says: a merged tombstone is dropped exactly when the destination is the deepest
  level, and therefore the deepest level holds no entry for a key once its tombstone has
  been merged into that level. The first half holds: the run written is what it was plus
  the merged entries, without the tombstones exactly when the destination is the deepest
  level. The consequence does not: an older run of the deepest level keeps its entry for
  the key. After \<^verbatim>\<open>put(1,10) put(2,20) put(3,30) del(1) put(4,40) put(5,50)\<close> (capacity
  1, depth 2, fanout 2, ratio 1) the tombstone of key 1 has been merged into the deepest
  level and dropped, the older run there still holds \<open>(1,10)\<close>, and \<^verbatim>\<open>get(1)\<close> prints
  10.
\<close>

theorem tombstone_elision_leaves_older_entry:
  "run_entries (merge_drain deepest ctx out) =
     run_entries out @ filter (\<lambda>e. \<not> (deepest \<and> val e = VAL_TOMBSTONE)) (merge_all ctx)
   \<and> exec_all (LSMTree_new 1 2 2 1 1)
       [Put 1 10, Put 2 20, Put 3 30, Del 1, Put 4 40, Put 5 50] = Inr deleted_key_tree
   \<and> map (\<lambda>r. run_get r 1) (runs (last (levels deleted_key_tree))) = [Some 10, None]
   \<and> get deleted_key_tree 1 = ''10'' @ endl"
proof (intro conjI)
  show "run_entries (merge_drain deepest ctx out) =
     run_entries out @ filter (\<lambda>e. \<not> (deepest \<and> val e = VAL_TOMBSTONE)) (merge_all ctx)"
    by (rule merge_drain_entries)
qed code_simp+

text \<open>
  C5. The specification says: between public operations every level has at most \<^verbatim>\<open>max_runs\<close> runs.
  The code breaks it when \<^verbatim>\<open>merge_ratio * max_runs\<close> truncates to zero: the merge then
  removes no run, and the flush that follows adds one to a full level. With capacity 1,
  depth 2, fanout 1 and ratio 1/2, after \<^verbatim>\<open>put(1,1) put(2,2) put(3,3)\<close> the first level
  holds two runs and its \<^verbatim>\<open>max_runs\<close> is 1.
\<close>

theorem level_zero_exceeds_max_runs:
  "exec_all (LSMTree_new 1 2 1 1 (1 / 2)) [Put 1 1, Put 2 2, Put 3 3] = Inr overfull_tree
   \<and> length (runs (hd (levels overfull_tree))) = 2
   \<and> max_runs (hd (levels overfull_tree)) = 1
   \<and> merge_size (1 / 2) \<lparr>max_runs = 1, max_run_size = 1,
              runs = [\<lparr>run_max_size = 1, run_entries = [(1, 1)]\<rparr>]\<rparr> = 0"
  by (intro conjI) code_simp+

text \<open>
  C6, as amended. \<^verbatim>\<open>load\<close> fails with \<open>FileNotFound\<close> when the file cannot be opened;
  otherwise it calls \<^verbatim>\<open>put\<close> for each complete record of the file, in order, and stops
  at the first \<^verbatim>\<open>put\<close> that fails. Trailing bytes that do not fill a record are ignored:
  \<^verbatim>\<open>load\<close> never fails with \<open>CorruptInput\<close>.
\<close>

theorem load_behaviour:
  "load t None = Inl FileNotFound
   \<and> load t (Some s) = exec_all t (map (\<lambda>e. Put (key e) (val e)) (complete_records s))
   \<and> load t f \<noteq> Inl CorruptInput"
proof (intro conjI)
  show "load t None = Inl FileNotFound" by (simp add: load_def)
  show "load t (Some s) = exec_all t (map (\<lambda>e. Put (key e) (val e)) (complete_records s))"
    by (simp add: load_def load_loop_records)
  show "load t f \<noteq> Inl CorruptInput"
    by (cases f) (simp_all add: load_def load_loop_records puts_not_corrupt)
qed

text \<open>
  C6 as stated fails: a file of one complete record \<open>(1, 2)\<close> followed by three more
  bytes is loaded without an error, and the record is put.
\<close>

theorem load_partial_record_counterexample:
  "load (LSMTree_new 2 2 2 1 1) (Some [1, 0, 0, 0, 2, 0, 0, 0, 3, 0, 0]) =
     Inr \<lparr>buffer = \<lparr>max_size = 2, entries = [(1, 2)]\<rparr>,
          levels = [\<lparr>max_runs = 2, max_run_size = 2, runs = []\<rparr>,
                    \<lparr>max_runs = 2, max_run_size = 4, runs = []\<rparr>],
          num_threads = 1, merge_ratio = 1\<rparr>"
proof -
  have l: "make_levels 2 2 2 = [\<lparr>max_runs = 2, max_run_size = 2, runs = []\<rparr>,
                    \<lparr>max_runs = 2, max_run_size = 4, runs = []\<rparr>]"
    by code_simp
  have r: "read_entry [1, 0, 0, 0, 2, 0, 0, 0, 3, 0, 0] = Some ((1, 2), [3, 0, 0])"
    by (simp add: read_entry_def stream_read_def sizeof_KEY_t_def sizeof_VAL_t_def decode_int_def)
  have r': "read_entry [3, 0, 0] = None"
    by (simp add: read_entry_def stream_read_def sizeof_KEY_t_def sizeof_VAL_t_def)
  show ?thesis
    by (simp add: load_def load_loop.simps r r' l put_def buffer_put_def buffer_get_def
        LSMTree_new_def Buffer_new_def key_def val_def)
qed

text \<open>
  C7. The specification says: \<^verbatim>\<open>range(start, end)\<close> prints exactly the keys in \<open>[start, end)\<close> whose
  latest write is a put, with the value of that put. The code does not: in the tree of C4,
  where the latest write of key 1 is \<^verbatim>\<open>del(1)\<close>, \<^verbatim>\<open>range(1, 2)\<close> prints \<open>1:10\<close>.
\<close>

theorem range_returns_deleted_key:
  "exec_all (LSMTree_new 1 2 2 1 1)
       [Put 1 10, Put 2 20, Put 3 30, Del 1, Put 4 40, Put 5 50, Range 1 2] = Inr deleted_key_tree
   \<and> range_lsm deleted_key_tree 1 2 = ''1:10'' @ endl"
  by (intro conjI) code_simp+

text \<open>
  C8. The specification says: \<^verbatim>\<open>range\<close> prints its tokens separated by single spaces, with no space
  before the newline. The code prints the separator after a token whenever the merge
  context is not yet exhausted, also when everything left is a tombstone: after
  \<^verbatim>\<open>put(1,10) del(2)\<close>, \<^verbatim>\<open>range(1, 3)\<close> prints \<open>1:10\<close>, a space and the newline.
\<close>

theorem range_prints_trailing_space:
  "exec_all (LSMTree_new 2 2 2 1 1) [Put 1 10, Del 2] =
     Inr \<lparr>buffer = \<lparr>max_size = 2, entries = [(1, 10), (2, VAL_TOMBSTONE)]\<rparr>,
          levels = [\<lparr>max_runs = 2, max_run_size = 2, runs = []\<rparr>,
                    \<lparr>max_runs = 2, max_run_size = 4, runs = []\<rparr>],
          num_threads = 1, merge_ratio = 1\<rparr>
   \<and> range_lsm \<lparr>buffer = \<lparr>max_size = 2, entries = [(1, 10), (2, VAL_TOMBSTONE)]\<rparr>,
          levels = [\<lparr>max_runs = 2, max_run_size = 2, runs = []\<rparr>,
                    \<lparr>max_runs = 2, max_run_size = 4, runs = []\<rparr>],
          num_threads = 1, merge_ratio = 1\<rparr> 1 3 = ''1:10 '' @ endl"
  by (intro conjI) code_simp+

text \<open>
  C9. \<^verbatim>\<open>merge_down\<close> on a level without runs returns and changes nothing;
  \<^verbatim>\<open>merge_down\<close> on the deepest level, when it has a run, fails with \<open>TreeFull\<close>; and
  \<open>TreeFull\<close> has no other origin: a call on a level that is not the deepest ends with
  \<open>TreeFull\<close> only when the recursive call it makes on the next level does, so that
  every such failure is the failure of a call on the deepest level, which then has a run
  (and every level on the way down has one, and all but the first are full).
\<close>

theorem merge_down_TreeFull:
  "(runs current = [] \<longrightarrow> merge_down ratio (current # rest) = Inr (current # rest))
   \<and> (runs current \<noteq> [] \<longrightarrow> merge_down ratio [current] = Inl TreeFull)
   \<and> (merge_down ratio (current # next # deeper) = Inl TreeFull \<longrightarrow>
        runs current \<noteq> [] \<and> remaining next = 0
        \<and> merge_down ratio (next # deeper) = Inl TreeFull)
   \<and> (merge_down ratio ls = Inl TreeFull \<longrightarrow>
        ls \<noteq> [] \<and> merge_down ratio [last ls] = Inl TreeFull
        \<and> (\<forall>l\<in>set ls. runs l \<noteq> []) \<and> (\<forall>l\<in>set (tl ls). remaining l = 0))"
proof (intro conjI impI)
  assume "runs current = []"
  then show "merge_down ratio (current # rest) = Inr (current # rest)"
    by (cases rest) simp_all
next
  assume "runs current \<noteq> []"
  then show "merge_down ratio [current] = Inl TreeFull" by simp
next
  assume a: "merge_down ratio (current # next # deeper) = Inl TreeFull"
  then show "runs current \<noteq> []" by (auto split: if_splits)
  from a show "remaining next = 0"
    by (auto split: if_splits sum.splits list.splits)
  from a show "merge_down ratio (next # deeper) = Inl TreeFull"
    by (auto split: if_splits sum.splits list.splits)
next
  assume "merge_down ratio ls = Inl TreeFull"
  then have "ls \<noteq> [] \<and> merge_down ratio [last ls] = Inl TreeFull
        \<and> (\<forall>l\<in>set ls. runs l \<noteq> []) \<and> (\<forall>l\<in>set (tl ls). remaining l = 0)"
  proof (induction ratio ls rule: merge_down.induct)
    case (1 ratio)
    then show ?case by simp
  next
    case (2 ratio current)
    then show ?case by (auto split: if_splits)
  next
    case (3 ratio current "next" deeper)
    from 3(2) have ne: "runs current \<noteq> []" by (auto split: if_splits)
    from 3(2) have z: "remaining next = 0"
      by (auto split: if_splits sum.splits list.splits)
    from 3(2) have r: "merge_down ratio (next # deeper) = Inl TreeFull"
      by (auto split: if_splits sum.splits list.splits)
    from 3(1) [OF ne z r] ne z show ?case by simp
  qed
  then show "ls \<noteq> []" and "merge_down ratio [last ls] = Inl TreeFull"
    and "\<forall>l\<in>set ls. runs l \<noteq> []" and "\<forall>l\<in>set (tl ls). remaining l = 0"
    by simp_all
qed

text \<open>
  The three cases at concrete levels: an empty level above a full one, the full level as
  the deepest, and the full level above itself.
\<close>

theorem merge_down_TreeFull_witness:
  "runs (Level_new 1 1) = []
   \<and> merge_down 1 [Level_new 1 1, full_level] = Inr [Level_new 1 1, full_level]
   \<and> runs full_level \<noteq> []
   \<and> merge_down 1 [full_level] = Inl TreeFull
   \<and> merge_down 1 [full_level, full_level] = Inl TreeFull
   \<and> remaining full_level = 0
   \<and> merge_down 1 [last [full_level, full_level]] = Inl TreeFull"
proof -
  have e: "runs (Level_new 1 1) = []" by (simp add: Level_new_def)
  have n: "runs full_level \<noteq> []" by (simp add: full_level_def)
  have t: "merge_down 1 [full_level, full_level] = Inl TreeFull"
    by (simp add: full_level_def remaining_def)
  note th = merge_down_TreeFull [of "Level_new 1 1" 1 "[full_level]" full_level "[]"
      "[full_level, full_level]"]
  note th' = merge_down_TreeFull [of "full_level" 1 "[]" full_level "[]"
      "[full_level, full_level]"]
  from th e have 1: "merge_down 1 [Level_new 1 1, full_level] = Inr [Level_new 1 1, full_level]"
    by blast
  from th' n have 2: "merge_down 1 [full_level] = Inl TreeFull" by blast
  from th' t have 3: "remaining full_level = 0" by blast
  from th' t have 4: "merge_down 1 [last [full_level, full_level]] = Inl TreeFull" by blast
  from e 1 n 2 t 3 4 show ?thesis by blast
qed

text \<open>
  C10. A call of \<^verbatim>\<open>merge_down\<close> on a level with runs that is not the deepest, when it
  returns, has put exactly one new run at the back of the next level (as the recursive
  call, if there was one, left that level): the next level has one slot less. The new
  run holds what the drain loop wrote; when the next level is the deepest and every
  entry of the current level is a tombstone, it holds no entry at all.
\<close>

theorem merge_down_appends_one_run:
  assumes "runs current \<noteq> []"
    and "merge_down ratio (current # next # deeper) = Inr ls'"
  shows "\<exists>current' next' deeper' next0 deeper0 out.
           ls' = current' # next' # deeper'
         \<and> (if remaining next = 0 then merge_down ratio (next # deeper) else Inr (next # deeper))
             = Inr (next0 # deeper0)
         \<and> length deeper0 = length deeper
         \<and> runs next' = runs next0 @ [out]
         \<and> remaining next' = remaining next0 - 1
         \<and> out = merge_drain (deeper0 = [])
                   (map run_entries (take (merge_size ratio current) (runs current)))
                   (Run_new (max_run_size next0))
         \<and> (deeper0 = [] \<and> (\<forall>r\<in>set (runs current). \<forall>e\<in>set (run_entries r). val e = VAL_TOMBSTONE)
              \<longrightarrow> run_entries out = [])"
proof -
  define mid where
    "mid = (if remaining next = 0 then merge_down ratio (next # deeper) else Inr (next # deeper))"
  from assms obtain next0 deeper0 where mid: "mid = Inr (next0 # deeper0)"
    and ls': "ls' = merge_runs ratio current next0 deeper0"
    unfolding mid_def by (auto split: if_splits sum.splits list.splits)
  have len: "length deeper0 = length deeper"
  proof (cases "remaining next = 0")
    case True
    with mid have "merge_down ratio (next # deeper) = Inr (next0 # deeper0)" by (simp add: mid_def)
    from merge_down_preserves [OF this] show ?thesis by simp
  next
    case False
    with mid show ?thesis by (simp add: mid_def)
  qed
  define out where "out = merge_drain (deeper0 = [])
                   (map run_entries (take (merge_size ratio current) (runs current)))
                   (Run_new (max_run_size next0))"
  have tomb: "run_entries out = []"
    if d: "deeper0 = []" and t: "\<forall>r\<in>set (runs current). \<forall>e\<in>set (run_entries r). val e = VAL_TOMBSTONE"
  proof -
    have "\<forall>e\<in>set (concat (map run_entries (take (merge_size ratio current) (runs current)))).
            val e = VAL_TOMBSTONE"
      using t by (auto dest: in_set_takeD)
    from merge_drain_all_tombstones [OF this] d show ?thesis
      by (simp add: out_def Run_new_def)
  qed
  define current' where "current' = current\<lparr>runs := drop (merge_size ratio current) (runs current)\<rparr>"
  define next' where "next' = next0\<lparr>runs := runs next0 @ [out]\<rparr>"
  from ls' have shape: "ls' = current' # next' # deeper0"
    by (simp add: merge_runs_shape out_def current'_def next'_def)
  have app: "runs next' = runs next0 @ [out]" by (simp add: next'_def)
  have rem: "remaining next' = remaining next0 - 1"
    by (simp add: remaining_def next'_def)
  from mid have mid': "(if remaining next = 0 then merge_down ratio (next # deeper)
      else Inr (next # deeper)) = Inr (next0 # deeper0)"
    by (simp add: mid_def)
  from shape mid' len app rem out_def tomb show ?thesis by blast
qed

text \<open>
  A level whose only entry is a tombstone, merged into an empty deepest level: the new run
  is empty and takes the one slot of that level.
\<close>

theorem merge_down_appends_one_run_witness:
  "runs tombstone_level \<noteq> []
   \<and> merge_down 1 [tombstone_level, Level_new 1 1] =
       Inr [tombstone_level\<lparr>runs := []\<rparr>, (Level_new 1 1)\<lparr>runs := [Run_new 1]\<rparr>]
   \<and> (\<exists>out. runs ((Level_new 1 1)\<lparr>runs := [Run_new 1]\<rparr>) = runs (Level_new 1 1) @ [out]
          \<and> run_entries out = [])
   \<and> remaining ((Level_new 1 1)\<lparr>runs := [Run_new 1]\<rparr>) = remaining (Level_new 1 1) - 1"
proof -
  have h1: "runs tombstone_level \<noteq> []" by (simp add: tombstone_level_def)
  have h2: "merge_down 1 [tombstone_level, Level_new 1 1] =
       Inr [tombstone_level\<lparr>runs := []\<rparr>, (Level_new 1 1)\<lparr>runs := [Run_new 1]\<rparr>]"
    by code_simp
  have h3: "\<forall>r\<in>set (runs tombstone_level). \<forall>e\<in>set (run_entries r). val e = VAL_TOMBSTONE"
    by (simp add: tombstone_level_def val_def)
  have h4: "remaining (Level_new 1 1) \<noteq> 0" by (simp add: remaining_def Level_new_def)
  from merge_down_appends_one_run [OF h1 h2] h3 h4
  have "(\<exists>out. runs ((Level_new 1 1)\<lparr>runs := [Run_new 1]\<rparr>) = runs (Level_new 1 1) @ [out]
          \<and> run_entries out = [])
   \<and> remaining ((Level_new 1 1)\<lparr>runs := [Run_new 1]\<rparr>) = remaining (Level_new 1 1) - 1"
    by auto
  with h1 h2 show ?thesis by blast
qed

end
